theory Spec2Isabelle
  imports Main "HOL-Library.Word"
begin

unbundle bit_operations_syntax

section \<open>Outcomes, addresses, spinlocks\<close>

text \<open>
  A kernel routine either returns, or ends in one of four other ways: \<open>panic()\<close>
  halts the machine; a C undefined behaviour (dereferencing a pointer that is not
  an object of the expected type, dividing by zero, indexing outside an array);
  \<open>acquire\<close> on a spinlock that is held, which does not return in a sequential
  run; a list traversal that runs forever on a cyclic list.
\<close>

datatype error = Panic string | Undefined | Spin | Loop

type_synonym addr = "64 word"

abbreviation NULL :: addr where "NULL \<equiv> 0"

text \<open>
  Modelled from the spec: \<open>include/spinlock.h\<close> is absent. A spinlock is its
  \<open>locked\<close> flag; "exactly one thread may hold a given lock at a time", so
  \<open>acquire\<close> of a held lock does not return.
\<close>

definition acquire :: "bool \<Rightarrow> error + bool" where
  "acquire lk = (if lk then Inl Spin else Inr True)"

definition release :: "bool \<Rightarrow> bool" where
  "release lk = False"

section \<open>The object allocator (kmalloc / kfree)\<close>

subsection \<open>Constants and macros\<close>

text \<open>
  Modelled from the spec: \<open>PGSIZE\<close> and \<open>PGROUNDDOWN\<close> come from
  \<open>include/riscv.h\<close>, which is absent; the allocator's header comment fixes
  4096-byte pages and the spec says "rounding the address down to page granularity".
\<close>

definition PGSIZE :: "'a::len word" where
  "PGSIZE = 4096"

definition PGROUNDDOWN :: "addr \<Rightarrow> addr" where
  "PGROUNDDOWN a = a AND NOT (PGSIZE - 1)"

definition KMEM_OBJ_MIN_SIZE :: "64 word" where
  "KMEM_OBJ_MIN_SIZE = 32"

definition KMEM_OBJ_MAX_SIZE :: "64 word" where
  "KMEM_OBJ_MAX_SIZE = 4048"

definition TABLE_END :: "8 word" where
  "TABLE_END = 255"

text \<open>\<open>sizeof(struct kmem_node*) + 2 * sizeof(uint64) + 2 * sizeof(int8)\<close>\<close>

definition KMEM_NODE_FIX :: "64 word" where
  "KMEM_NODE_FIX = 8 + 2 * 8 + 2 * 1"

definition KMEM_TABLE_SIZE :: "'a::len word" where
  "KMEM_TABLE_SIZE = 17"

definition hash :: "'a::len word \<Rightarrow> 'a word" where
  "hash n = n mod KMEM_TABLE_SIZE"

definition ROUNDUP16 :: "'a::len word \<Rightarrow> 'a word" where
  "ROUNDUP16 n = (n + 15) AND NOT 15"

definition calc_capa :: "32 word \<Rightarrow> 64 word" where
  "calc_capa roundup_size = (PGSIZE - ROUNDUP16 KMEM_NODE_FIX) div ucast (roundup_size + 1)"

subsection \<open>Data\<close>

text \<open>
  A \<open>struct kmem_node\<close> is the header of one page. Its \<open>table\<close> is declared with
  \<open>KMEM_OBJ_MAX_COUNT\<close> entries, but only the first \<open>capa\<close> of them are table
  entries (the object region starts right after them), so the model keeps a list of
  that length and an index outside it is an undefined access.
\<close>

record kmem_node =
  n_next :: addr
  n_obj_size :: "64 word"
  n_obj_addr :: "64 word"
  n_avail :: "8 word"
  n_cnt :: "8 word"
  n_table :: "8 word list"

text \<open>
  A \<open>struct kmem_allocator *\<close> is \<open>NULL\<close>, the address of the global
  \<open>kmem_adam\<close>, or the address of an object that \<open>kmalloc\<close> returned.
\<close>

datatype aref = ANull | Adam | AObj addr

record kmem_allocator =
  a_lock :: bool
  a_obj_size :: "32 word"
  a_npages :: "16 word"
  a_nobjs :: "16 word"
  a_list :: addr
  a_next :: aref

text \<open>
  The memory state. \<open>freelist\<close> is the page allocator's pool (modelled from the
  spec, see \<open>allocpage\<close>); \<open>nodes\<close> and \<open>allocators\<close> are the typed stores of
  slab headers and of allocator instances living in kmalloc'ed objects; \<open>mem\<close>
  holds the bytes of everything else.
\<close>

record mstate =
  freelist :: "addr list"
  nodes :: "addr \<rightharpoonup> kmem_node"
  kmem_adam :: kmem_allocator
  allocators :: "addr \<rightharpoonup> kmem_allocator"
  kmem_table :: "nat \<Rightarrow> aref"
  kmem_table_lock :: bool
  mem :: "addr \<Rightarrow> 8 word"

text \<open>
  Modelled from the spec: the page allocator (\<open>include/pm.h\<close>, absent) offers
  \<open>allocate_page() \<rightarrow> page or none\<close> and \<open>free_page(page)\<close> on whole pages.
\<close>

definition allocpage :: "mstate \<Rightarrow> addr \<times> mstate" where
  "allocpage s = (case freelist s of [] \<Rightarrow> (NULL, s) | p # ps \<Rightarrow> (p, s\<lparr>freelist := ps\<rparr>))"

definition freepage :: "addr \<Rightarrow> mstate \<Rightarrow> mstate" where
  "freepage p s = s\<lparr>freelist := p # freelist s\<rparr>"

definition alloc_at :: "mstate \<Rightarrow> aref \<Rightarrow> kmem_allocator option" where
  "alloc_at s r = (case r of ANull \<Rightarrow> None | Adam \<Rightarrow> Some (kmem_adam s) | AObj a \<Rightarrow> allocators s a)"

definition alloc_upd :: "aref \<Rightarrow> (kmem_allocator \<Rightarrow> kmem_allocator) \<Rightarrow> mstate \<Rightarrow> mstate" where
  "alloc_upd r f s =
     (case r of
        ANull \<Rightarrow> s
      | Adam \<Rightarrow> s\<lparr>kmem_adam := f (kmem_adam s)\<rparr>
      | AObj a \<Rightarrow> (case allocators s a of None \<Rightarrow> s
                  | Some x \<Rightarrow> s\<lparr>allocators := (allocators s)(a \<mapsto> f x)\<rparr>))"

definition node_upd :: "addr \<Rightarrow> (kmem_node \<Rightarrow> kmem_node) \<Rightarrow> mstate \<Rightarrow> mstate" where
  "node_upd p f s =
     (case nodes s p of None \<Rightarrow> s | Some n \<Rightarrow> s\<lparr>nodes := (nodes s)(p \<mapsto> f n)\<rparr>)"

subsection \<open>kmallocinit\<close>

definition kmallocinit :: "32 word \<Rightarrow> mstate \<Rightarrow> mstate" where
  "kmallocinit K s =
     (let adam = \<lparr>a_lock = False, a_obj_size = ROUNDUP16 K, a_npages = 0, a_nobjs = 0,
                  a_list = NULL, a_next = ANull\<rparr>;
          tab = fold (\<lambda>i t. t(i := ANull)) [0 ..< unat (KMEM_TABLE_SIZE :: 8 word)] (kmem_table s)
      in s\<lparr>kmem_adam := adam,
           kmem_table := tab(unat (hash (a_obj_size adam)) := Adam),
           kmem_table_lock := False\<rparr>)"

subsection \<open>get\_allocator and kmalloc\<close>

text \<open>The search of a bucket's chain (the \<open>for\<close> loop of \<open>get_allocator\<close>).\<close>

partial_function (option) search_chain :: "mstate \<Rightarrow> 64 word \<Rightarrow> aref \<Rightarrow> (error + aref) option"
where
  "search_chain s roundup_size tmp =
     (if tmp = ANull then Some (Inr ANull)
      else case alloc_at s tmp of
             None \<Rightarrow> Some (Inl Undefined)
           | Some a \<Rightarrow> if roundup_size = ucast (a_obj_size a) then Some (Inr tmp)
                      else search_chain s roundup_size (a_next a))"

declare search_chain.simps [code]

definition search_table :: "mstate \<Rightarrow> 64 word \<Rightarrow> aref \<Rightarrow> error + aref" where
  "search_table s roundup_size tmp =
     (case search_chain s roundup_size tmp of None \<Rightarrow> Inl Loop | Some r \<Rightarrow> r)"

text \<open>The loop \<open>for (uint8 i = 0; i < capa - 1; i ++) tmp->table[i] = i + 1\<close>;
  the comparison is done in \<open>int\<close>.\<close>

function fill_table :: "8 word \<Rightarrow> 8 word \<Rightarrow> 8 word list \<Rightarrow> 8 word list" where
  "fill_table i capa t =
     (if uint i < uint capa - 1 then fill_table (i + 1) capa (t[unat i := i + 1]) else t)"
  by pat_completeness auto
termination
proof (relation "measure (\<lambda>(i, capa, t). nat (uint capa - uint i))", goal_cases)
  case 1
  show ?case by simp
next
  case (2 i capa t)
  have "uint capa < 256" using uint_bounded [of capa] by simp
  with 2 have "uint i + 1 < 2 ^ LENGTH(8)" by simp
  then have "uint (i + 1) = uint i + 1"
    by (simp add: uint_word_ariths take_bit_int_eq_self)
  with 2 show ?case by simp
qed

declare fill_table.simps [simp del]

text \<open>Lines 180--195 of \<open>kmalloc\<close>: the fresh page \<open>tmp\<close> becomes a slab node. The
  bytes of the page are not initialised; every table entry below \<open>capa\<close> is written
  before it is read.\<close>

definition format_node :: "addr \<Rightarrow> 32 word \<Rightarrow> error + kmem_node" where
  "format_node tmp sz =
     (let roundup_size = ROUNDUP16 sz;
          capa = (ucast (calc_capa roundup_size) :: 8 word)
      in if capa = 0 then Inl Undefined
         else Inr \<lparr>n_next = NULL,
                   n_obj_size = ucast roundup_size,
                   n_obj_addr = tmp + ROUNDUP16 (KMEM_NODE_FIX + ucast capa),
                   n_avail = 0,
                   n_cnt = 0,
                   n_table = (fill_table 0 capa (replicate (unat capa) 0))
                               [unat capa - 1 := TABLE_END]\<rparr>)"

text \<open>Lines 198--217 of \<open>kmalloc\<close>: take an object from the front node.\<close>

definition kmalloc_take :: "aref \<Rightarrow> mstate \<Rightarrow> error + (addr \<times> mstate)" where
  "kmalloc_take alloc s =
     (let s1 = alloc_upd alloc (\<lambda>a. a\<lparr>a_nobjs := a_nobjs a + 1\<rparr>) s in
      case alloc_at s1 alloc of
        None \<Rightarrow> Inl Undefined
      | Some a \<Rightarrow>
          let node = a_list a in
          (case nodes s1 node of
             None \<Rightarrow> Inl Undefined
           | Some n \<Rightarrow>
               let ret = n_obj_addr n + ucast (n_avail n) * n_obj_size n in
               if \<not> unat (n_avail n) < length (n_table n) then Inl Undefined
               else
                 let avail' = n_table n ! unat (n_avail n);
                     s2 = node_upd node (\<lambda>n. n\<lparr>n_cnt := n_cnt n + 1, n_avail := avail'\<rparr>) s1;
                     s3 = (if TABLE_END = avail'
                           then alloc_upd alloc (\<lambda>a. a\<lparr>a_list := n_next n\<rparr>) s2 else s2)
                 in Inr (ret, alloc_upd alloc (\<lambda>a. a\<lparr>a_lock := release (a_lock a)\<rparr>) s3)))"

text \<open>Lines 169--196 of \<open>kmalloc\<close>: lock the allocator and, when its list is empty,
  build a node from a fresh page.\<close>

definition kmalloc_from :: "aref \<Rightarrow> 32 word \<Rightarrow> mstate \<Rightarrow> error + (addr \<times> mstate)" where
  "kmalloc_from alloc sz s =
     (case alloc_at s alloc of
        None \<Rightarrow> Inl Undefined
      | Some a \<Rightarrow>
          (case acquire (a_lock a) of
             Inl e \<Rightarrow> Inl e
           | Inr lk \<Rightarrow>
               let s1 = alloc_upd alloc (\<lambda>a. a\<lparr>a_lock := lk\<rparr>) s in
               if NULL = a_list a then
                 (case allocpage s1 of
                    (tmp, s2) \<Rightarrow>
                      if NULL = tmp
                      then Inr (NULL, alloc_upd alloc (\<lambda>a. a\<lparr>a_lock := release (a_lock a)\<rparr>) s2)
                      else
                        (case format_node tmp sz of
                           Inl e \<Rightarrow> Inl e
                         | Inr n \<Rightarrow>
                             kmalloc_take alloc
                               (alloc_upd alloc (\<lambda>a. a\<lparr>a_npages := a_npages a + 1, a_list := tmp\<rparr>)
                                  (s2\<lparr>nodes := (nodes s2)(tmp \<mapsto> n)\<rparr>))))
               else kmalloc_take alloc s1))"

text \<open>The second look at the bucket's head, under \<open>kmem_table_lock\<close>.\<close>

definition head_matches :: "mstate \<Rightarrow> nat \<Rightarrow> 64 word \<Rightarrow> error + bool" where
  "head_matches s h roundup_size =
     (if kmem_table s h = ANull then Inr False
      else case alloc_at s (kmem_table s h) of
             None \<Rightarrow> Inl Undefined
           | Some a \<Rightarrow> Inr (ucast (a_obj_size a) = roundup_size))"

text \<open>Lines 136--142 of \<open>get_allocator\<close>: initialise the new allocator and put it at
  the head of its bucket.\<close>

definition register_allocator :: "addr \<Rightarrow> nat \<Rightarrow> 64 word \<Rightarrow> mstate \<Rightarrow> mstate" where
  "register_allocator tmp h roundup_size s =
     s\<lparr>allocators := (allocators s)(tmp \<mapsto>
          \<lparr>a_lock = False, a_obj_size = ucast roundup_size, a_npages = 0, a_nobjs = 0,
           a_list = NULL, a_next = kmem_table s h\<rparr>),
       kmem_table := (kmem_table s)(h := AObj tmp)\<rparr>"

text \<open>
  \<open>get_allocator\<close> and \<open>kmalloc\<close> call each other: a missing allocator is created
  with \<open>_malloc_allocator()\<close>, which is \<open>kmalloc(sizeof(struct kmem_allocator))\<close>.
  The first argument \<open>K\<close> of both is that size, which depends on declarations that
  are absent (\<open>struct spinlock\<close>). The recursion ends because the nested call runs
  with \<open>kmem_table_lock\<close> held: if it had to create an allocator too, it would spin
  on that lock.
\<close>

function get_allocator :: "32 word \<Rightarrow> 64 word \<Rightarrow> mstate \<Rightarrow> error + (aref \<times> mstate)"
  and kmalloc :: "32 word \<Rightarrow> 32 word \<Rightarrow> mstate \<Rightarrow> error + (addr \<times> mstate)"
where
  "get_allocator K raw_size s =
     (case search_table s (ROUNDUP16 raw_size) (kmem_table s (unat (hash (ROUNDUP16 raw_size)))) of
        Inl e \<Rightarrow> Inl e
      | Inr found \<Rightarrow>
          if found \<noteq> ANull then Inr (found, s)
          else
            (case acquire (kmem_table_lock s) of
               Inl e \<Rightarrow> Inl e
             | Inr lk \<Rightarrow>
                 (case head_matches (s\<lparr>kmem_table_lock := lk\<rparr>) (unat (hash (ROUNDUP16 raw_size)))
                         (ROUNDUP16 raw_size) of
                    Inl e \<Rightarrow> Inl e
                  | Inr True \<Rightarrow>
                      Inr (kmem_table s (unat (hash (ROUNDUP16 raw_size))),
                           s\<lparr>kmem_table_lock := release lk\<rparr>)
                  | Inr False \<Rightarrow>
                      (case kmalloc K K (s\<lparr>kmem_table_lock := lk\<rparr>) of
                         Inl e \<Rightarrow> Inl e
                       | Inr (tmp, s2) \<Rightarrow>
                           if NULL \<noteq> tmp
                           then Inr (AObj tmp,
                                     (register_allocator tmp (unat (hash (ROUNDUP16 raw_size)))
                                        (ROUNDUP16 raw_size) s2)
                                     \<lparr>kmem_table_lock := release (kmem_table_lock s2)\<rparr>)
                           else Inr (ANull, s2\<lparr>kmem_table_lock := release (kmem_table_lock s2)\<rparr>)))))"
| "kmalloc K sz s =
     (if KMEM_OBJ_MIN_SIZE > ucast sz then
        (case get_allocator K (ucast (ucast KMEM_OBJ_MIN_SIZE :: 32 word)) s of
           Inl e \<Rightarrow> Inl e
         | Inr (alloc, s1) \<Rightarrow>
             if ANull = alloc then Inr (NULL, s1)
             else kmalloc_from alloc (ucast KMEM_OBJ_MIN_SIZE) s1)
      else if KMEM_OBJ_MAX_SIZE < ucast sz then Inr (NULL, s)
      else
        (case get_allocator K (ucast sz) s of
           Inl e \<Rightarrow> Inl e
         | Inr (alloc, s1) \<Rightarrow>
             if ANull = alloc then Inr (NULL, s1)
             else kmalloc_from alloc sz s1))"
  by pat_completeness auto
termination
proof (relation "measure (\<lambda>x. case x of
          Inl (K, raw_size, s) \<Rightarrow> (if kmem_table_lock s then 0 else 2)
        | Inr (K, sz, s) \<Rightarrow> (if kmem_table_lock s then 1 else 3))", goal_cases)
  case 1
  show ?case by simp
next
  case (2 K raw_size s found lk)
  then show ?case by (auto simp: acquire_def split: if_splits)
next
  case 3
  then show ?case by simp
next
  case 4
  then show ?case by simp
qed

declare get_allocator.simps [simp del] kmalloc.simps [simp del]

subsection \<open>kfree\<close>

text \<open>\<open>struct kmem_node **pprev\<close>: the list head of the allocator or the \<open>next\<close>
  field of a node.\<close>

datatype link = ListHead | NextOf addr

partial_function (option) unlink_loop ::
  "mstate \<Rightarrow> addr \<Rightarrow> link \<Rightarrow> addr \<Rightarrow> (error + link \<times> addr) option"
where
  "unlink_loop s node pprev tmp =
     (if NULL \<noteq> tmp \<and> node \<noteq> tmp
      then (case nodes s tmp of
              None \<Rightarrow> Some (Inl Undefined)
            | Some n \<Rightarrow> unlink_loop s node (NextOf tmp) (n_next n))
      else Some (Inr (pprev, tmp)))"

declare unlink_loop.simps [code]

definition unlink_scan :: "mstate \<Rightarrow> addr \<Rightarrow> addr \<Rightarrow> error + link \<times> addr" where
  "unlink_scan s node first =
     (case unlink_loop s node ListHead first of None \<Rightarrow> Inl Loop | Some r \<Rightarrow> r)"

text \<open>Lines 246--275 of \<open>kfree\<close>: the node has no allocated object left. Once the page
  is handed back it is no slab node any more.\<close>

definition kfree_drop :: "aref \<Rightarrow> addr \<Rightarrow> mstate \<Rightarrow> error + mstate" where
  "kfree_drop alloc node s =
     (case alloc_at s alloc of
        None \<Rightarrow> Inl Undefined
      | Some a \<Rightarrow>
          (case unlink_scan s node (a_list a) of
             Inl e \<Rightarrow> Inl e
           | Inr (pprev, tmp) \<Rightarrow>
               if NULL = tmp then Inl (Panic ''kfree(): linked list broken!'')
               else
                 (case nodes s tmp of
                    None \<Rightarrow> Inl Undefined
                  | Some t \<Rightarrow>
                      let s1 = (case pprev of
                                  ListHead \<Rightarrow> alloc_upd alloc (\<lambda>a. a\<lparr>a_list := n_next t\<rparr>) s
                                | NextOf q \<Rightarrow> node_upd q (\<lambda>n. n\<lparr>n_next := n_next t\<rparr>) s);
                          s2 = freepage node (s1\<lparr>nodes := (nodes s1)(node := None)\<rparr>)
                      in Inr (alloc_upd alloc (\<lambda>a. a\<lparr>a_npages := a_npages a - 1\<rparr>) s2))))"

definition kfree :: "32 word \<Rightarrow> addr \<Rightarrow> mstate \<Rightarrow> error + mstate" where
  "kfree K addr s =
     (let node = PGROUNDDOWN addr in
      case nodes s node of
        None \<Rightarrow> Inl Undefined
      | Some n0 \<Rightarrow>
          if n_obj_size n0 = 0 then Inl Undefined
          else
            let avail = (ucast ((addr - n_obj_addr n0) div n_obj_size n0) :: 8 word) in
            (case get_allocator K (n_obj_size n0) s of
               Inl e \<Rightarrow> Inl e
             | Inr (alloc, s1) \<Rightarrow>
                 (case alloc_at s1 alloc of
                    None \<Rightarrow> Inl Undefined
                  | Some a \<Rightarrow>
                      (case acquire (a_lock a) of
                         Inl e \<Rightarrow> Inl e
                       | Inr lk \<Rightarrow>
                           let s2 = alloc_upd alloc
                                      (\<lambda>a. a\<lparr>a_lock := lk, a_nobjs := a_nobjs a - 1\<rparr>) s1 in
                           (case nodes s2 node of
                              None \<Rightarrow> Inl Undefined
                            | Some n \<Rightarrow>
                                let s3 = (if TABLE_END = n_avail n
                                          then alloc_upd alloc (\<lambda>a. a\<lparr>a_list := node\<rparr>)
                                                 (node_upd node (\<lambda>n. n\<lparr>n_next := a_list a\<rparr>) s2)
                                          else s2)
                                in
                                if \<not> unat avail < length (n_table n) then Inl Undefined
                                else
                                  let s4 = node_upd node
                                             (\<lambda>n. n\<lparr>n_table := (n_table n)[unat avail := n_avail n],
                                                    n_avail := avail, n_cnt := n_cnt n - 1\<rparr>) s3
                                  in
                                  (case (if 0 = n_cnt n - 1 then kfree_drop alloc node s4
                                         else Inr s4) of
                                     Inl e \<Rightarrow> Inl e
                                   | Inr s5 \<Rightarrow>
                                       Inr (alloc_upd alloc
                                              (\<lambda>a. a\<lparr>a_lock := release (a_lock a)\<rparr>) s5)))))))"

section \<open>The process table (proc.c)\<close>

subsection \<open>Data\<close>

text \<open>
  Modelled from the spec: \<open>include/proc.h\<close> is absent. The states are those of
  section 4.3 of the spec (\<open>UNUSED\<close> is the free state, and the value of a zeroed
  descriptor); the fields are those that \<open>proc.c\<close> reads or writes.
\<close>

datatype procstate = UNUSED | SLEEPING | RUNNABLE | RUNNING | ZOMBIE

record context_regs =
  c_ra :: "64 word"
  c_sp :: "64 word"
  c_saved :: "64 word list"

record tms =
  utime :: "64 word"
  stime :: "64 word"
  cutime :: "64 word"
  cstime :: "64 word"

record proc =
  p_lock :: bool
  p_state :: procstate
  p_pid :: "32 word"
  p_parent :: "nat option"
  p_name :: "8 word list"
  p_chan :: addr
  p_killed :: "32 word"
  p_xstate :: "32 word"
  p_sz :: "64 word"
  p_filelimit :: "32 word"
  p_robust_list :: addr
  p_clear_child_tid :: addr
  p_set_child_tid :: addr
  p_vma :: addr
  p_trapframe :: addr
  p_kstack :: "64 word"
  p_pagetable :: addr
  p_ofile :: addr
  p_context :: context_regs
  p_tms :: tms
  p_sig_act :: addr
  p_sig_frame :: addr
  p_sig_pending :: "64 word list"
  p_tmask :: "32 word"

text \<open>What the hart does to the machine besides writing memory.\<close>

datatype event = W_satp addr | Sfence_vma | Swtch nat | Intr_on | Wfi

text \<open>
  The kernel state: the memory state, the table \<open>proc[NPROC]\<close> (a \<open>struct proc *\<close>
  is an index into it), the globals of \<open>proc.c\<close>, and of the executing hart its
  \<open>c->proc\<close> and the trace of its machine operations.
\<close>

record kstate =
  km :: mstate
  proc :: "proc list"
  nextpid :: "32 word"
  pid_lock :: bool
  initproc :: "nat option"
  runproc :: "nat option"
  cpu_proc :: "nat option"
  trace :: "event list"

text \<open>
  What the rest of the kernel supplies: the constants of absent headers, the size of
  \<open>struct kmem_allocator\<close>, the address of the global \<open>kmem_adam\<close> (the value of a
  pointer to it), the address of \<open>forkret\<close> and of the kernel page table,
  and the collaborators of section 6 of the spec. The address-space and signal
  collaborators work on memory; \<open>vma_list_init\<close> returns the list that it stored in
  \<open>p->vma\<close> (\<open>NULL\<close> when it failed); \<open>swtch\<close> returns the state in which the
  process switches back.
\<close>

record env =
  NOFILE :: nat
  sizeof_allocator :: "32 word"
  kmem_adam_addr :: addr
  forkret :: "64 word"
  kernel_pagetable :: addr
  kvmcreate :: "mstate \<Rightarrow> addr \<times> mstate"
  vma_list_init :: "mstate \<Rightarrow> addr \<times> mstate"
  freewalk :: "addr \<Rightarrow> mstate \<Rightarrow> mstate"
  uvmfree :: "proc \<Rightarrow> mstate \<Rightarrow> mstate"
  sigaction_free :: "addr \<Rightarrow> mstate \<Rightarrow> mstate"
  sigframefree :: "addr \<Rightarrow> mstate \<Rightarrow> mstate"
  swtch :: "nat \<Rightarrow> kstate \<Rightarrow> error + kstate"

definition proc_upd :: "nat \<Rightarrow> (proc \<Rightarrow> proc) \<Rightarrow> kstate \<Rightarrow> kstate" where
  "proc_upd i f s = s\<lparr>proc := (proc s)[i := f (proc s ! i)]\<rparr>"

text \<open>Modelled from the spec: \<open>memset\<close> of \<open>include/string.h\<close> (absent), and the
  store of a 64-bit value, least significant byte first.\<close>

definition memset :: "addr \<Rightarrow> 8 word \<Rightarrow> 64 word \<Rightarrow> (addr \<Rightarrow> 8 word) \<Rightarrow> (addr \<Rightarrow> 8 word)" where
  "memset dst c n m = (\<lambda>a. if a - dst < n then c else m a)"

definition store64 :: "addr \<Rightarrow> 64 word \<Rightarrow> (addr \<Rightarrow> 8 word) \<Rightarrow> (addr \<Rightarrow> 8 word)" where
  "store64 dst v m = (\<lambda>a. if a - dst < 8 then ucast (drop_bit (8 * unat (a - dst)) v) else m a)"

subsection \<open>allocpid\<close>

definition allocpid :: "kstate \<Rightarrow> error + (32 word \<times> kstate)" where
  "allocpid s =
     (case acquire (pid_lock s) of
        Inl e \<Rightarrow> Inl e
      | Inr lk \<Rightarrow>
          let s1 = s\<lparr>pid_lock := lk\<rparr>;
              pid = nextpid s1;
              s2 = s1\<lparr>nextpid := nextpid s1 + 1\<rparr>
          in Inr (pid, s2\<lparr>pid_lock := release (pid_lock s2)\<rparr>))"

text \<open>\<open>n\<close> calls in a row, with the values they return.\<close>

fun allocpid_seq :: "nat \<Rightarrow> kstate \<Rightarrow> error + (32 word list \<times> kstate)" where
  "allocpid_seq 0 s = Inr ([], s)"
| "allocpid_seq (Suc n) s =
     (case allocpid s of
        Inl e \<Rightarrow> Inl e
      | Inr (pid, s1) \<Rightarrow>
          (case allocpid_seq n s1 of
             Inl e \<Rightarrow> Inl e
           | Inr (pids, s2) \<Rightarrow> Inr (pid # pids, s2)))"

subsection \<open>freeproc\<close>

definition freeproc :: "env \<Rightarrow> nat \<Rightarrow> kstate \<Rightarrow> error + kstate" where
  "freeproc E p s =
     (if \<not> p < length (proc s) then Inl Undefined
      else
        case (if p_trapframe (proc s ! p) \<noteq> NULL
              then kfree (sizeof_allocator E) (p_trapframe (proc s ! p)) (km s)
              else Inr (km s)) of
          Inl e \<Rightarrow> Inl e
        | Inr m1 \<Rightarrow>
            let s1 = proc_upd p (\<lambda>q. q\<lparr>p_trapframe := NULL\<rparr>) (s\<lparr>km := m1\<rparr>) in
            (case (if p_ofile (proc s1 ! p) \<noteq> NULL
                   then kfree (sizeof_allocator E) (p_ofile (proc s1 ! p)) (km s1)
                   else Inr (km s1)) of
               Inl e \<Rightarrow> Inl e
             | Inr m2 \<Rightarrow>
                 let s2 = proc_upd p (\<lambda>q. q\<lparr>p_ofile := NULL\<rparr>) (s1\<lparr>km := m2\<rparr>);
                     s3 = (if p_kstack (proc s2 ! p) \<noteq> 0
                           then s2\<lparr>km := freepage (p_kstack (proc s2 ! p)) (km s2)\<rparr> else s2);
                     s4 = (if p_pagetable (proc s3 ! p) \<noteq> NULL
                           then s3\<lparr>km := uvmfree E (proc s3 ! p) (km s3)\<rparr> else s3);
                     s5 = proc_upd p
                            (\<lambda>q. q\<lparr>p_pagetable := NULL, p_vma := NULL, p_robust_list := NULL,
                                   p_sz := 0, p_pid := 0, p_parent := None,
                                   p_name := (p_name q)[0 := 0], p_chan := NULL,
                                   p_killed := 0, p_xstate := 0, p_state := UNUSED\<rparr>) s4;
                     s6 = s5\<lparr>km := sigaction_free E (p_sig_act (proc s5 ! p)) (km s5)\<rparr>
                 in Inr (s6\<lparr>km := sigframefree E (p_sig_frame (proc s6 ! p)) (km s6)\<rparr>)))"

subsection \<open>allocproc\<close>

definition proc_pagetable :: "env \<Rightarrow> nat \<Rightarrow> kstate \<Rightarrow> addr \<times> kstate" where
  "proc_pagetable E p s =
     (case kvmcreate E (km s) of
        (pagetable, m1) \<Rightarrow>
          if pagetable = NULL then (NULL, s\<lparr>km := m1\<rparr>)
          else
            let s1 = proc_upd p (\<lambda>q. q\<lparr>p_pagetable := pagetable\<rparr>) (s\<lparr>km := m1\<rparr>) in
            (case vma_list_init E (km s1) of
               (v, m2) \<Rightarrow>
                 let s2 = proc_upd p (\<lambda>q. q\<lparr>p_vma := v\<rparr>) (s1\<lparr>km := m2\<rparr>) in
                 if v = NULL
                 then (NULL, (proc_upd p (\<lambda>q. q\<lparr>p_pagetable := NULL\<rparr>) s2)
                               \<lparr>km := freewalk E pagetable (km s2)\<rparr>)
                 else (pagetable, s2)))"

text \<open>The scan \<open>for(p = proc; p < &proc[NPROC]; p++)\<close>, from slot \<open>i\<close> on.\<close>

function allocproc_scan :: "nat \<Rightarrow> kstate \<Rightarrow> error + (nat option \<times> kstate)" where
  "allocproc_scan i s =
     (if i < length (proc s) then
        (case acquire (p_lock (proc s ! i)) of
           Inl e \<Rightarrow> Inl e
         | Inr lk \<Rightarrow>
             if p_state (proc s ! i) = UNUSED
             then Inr (Some i, proc_upd i (\<lambda>q. q\<lparr>p_lock := lk\<rparr>) s)
             else allocproc_scan (i + 1)
                    (proc_upd i (\<lambda>q. q\<lparr>p_lock := release (p_lock q)\<rparr>)
                       (proc_upd i (\<lambda>q. q\<lparr>p_lock := lk\<rparr>) s)))
      else Inr (None, s))"
  by pat_completeness auto
termination
  by (relation "measure (\<lambda>(i, s). length (proc s) - i)") (auto simp: proc_upd_def)

declare allocproc_scan.simps [simp del]

text \<open>The zeroing of the new open-file table: the loop over the \<open>NOFILE\<close> pointers,
  then \<open>memset(p->ofile, 0, PGSIZE)\<close>, on the bytes of memory.\<close>

definition clear_ofile :: "nat \<Rightarrow> addr \<Rightarrow> (addr \<Rightarrow> 8 word) \<Rightarrow> (addr \<Rightarrow> 8 word)" where
  "clear_ofile nofile ofile m =
     memset ofile 0 PGSIZE (fold (\<lambda>fd. store64 (ofile + 8 * of_nat fd) 0) [0 ..< nofile] m)"

text \<open>
  The same writes as the typed stores see them. Zeros written to the \<open>n\<close> bytes from
  \<open>dst\<close> on clear the bytes of a field that lie there (a field of \<open>k\<close> bytes at
  address \<open>f\<close>, least significant byte first). The fields of a slab header sit where
  \<open>struct kmem_node\<close> declares them: \<open>next\<close> at 0, \<open>obj_size\<close> at 8, \<open>obj_addr\<close>
  at 16, \<open>avail\<close> at 24, \<open>cnt\<close> at 25, \<open>table\<close> from 26 on.

  Modelled from the spec: \<open>struct spinlock\<close> (\<open>include/spinlock.h\<close>) is absent. It is
  taken to begin with its \<open>locked\<close> word and, as it keeps the pointer to the name that
  \<open>initlock\<close> gets, to have a size that is a multiple of 8; then \<open>obj_size\<close>,
  \<open>npages\<close>, \<open>nobjs\<close>, \<open>list\<close> and \<open>next\<close> are the last 24 bytes of a
  \<open>struct kmem_allocator\<close>. The globals \<open>kmem_adam\<close> and \<open>kmem_table\<close> are not in the
  pages of the page allocator, and what the page allocator keeps in its free pages
  is not known.
\<close>

definition zero_bytes :: "addr \<Rightarrow> 64 word \<Rightarrow> addr \<Rightarrow> nat \<Rightarrow> 'a::len word \<Rightarrow> 'a word" where
  "zero_bytes dst n f k v =
     v AND NOT (foldr (\<lambda>i m. (if f + of_nat i - dst < n then push_bit (8 * i) 255 else 0) OR m)
                  [0 ..< k] 0)"

definition zero_node :: "addr \<Rightarrow> 64 word \<Rightarrow> addr \<Rightarrow> kmem_node \<Rightarrow> kmem_node" where
  "zero_node dst n p nd =
     \<lparr>n_next = zero_bytes dst n p 8 (n_next nd),
      n_obj_size = zero_bytes dst n (p + 8) 8 (n_obj_size nd),
      n_obj_addr = zero_bytes dst n (p + 16) 8 (n_obj_addr nd),
      n_avail = zero_bytes dst n (p + 24) 1 (n_avail nd),
      n_cnt = zero_bytes dst n (p + 25) 1 (n_cnt nd),
      n_table = map (\<lambda>i. zero_bytes dst n (p + 26 + of_nat i) 1 (n_table nd ! i))
                  [0 ..< length (n_table nd)]\<rparr>"

text \<open>The value of a \<open>struct kmem_allocator *\<close>, and the pointer with a given value.\<close>

definition ref_addr :: "env \<Rightarrow> aref \<Rightarrow> addr" where
  "ref_addr E r = (case r of ANull \<Rightarrow> NULL | Adam \<Rightarrow> kmem_adam_addr E | AObj x \<Rightarrow> x)"

definition addr_ref :: "env \<Rightarrow> addr \<Rightarrow> aref" where
  "addr_ref E x = (if x = NULL then ANull else if x = kmem_adam_addr E then Adam else AObj x)"

definition zero_alloc :: "env \<Rightarrow> addr \<Rightarrow> 64 word \<Rightarrow> addr \<Rightarrow> kmem_allocator \<Rightarrow> kmem_allocator" where
  "zero_alloc E dst n x a =
     (let e = x + ucast (sizeof_allocator E);
          nx = ref_addr E (a_next a)
      in \<lparr>a_lock = (zero_bytes dst n x 4 (if a_lock a then 1 else 0 :: 32 word) \<noteq> 0),
          a_obj_size = zero_bytes dst n (e - 24) 4 (a_obj_size a),
          a_npages = zero_bytes dst n (e - 20) 2 (a_npages a),
          a_nobjs = zero_bytes dst n (e - 18) 2 (a_nobjs a),
          a_list = zero_bytes dst n (e - 16) 8 (a_list a),
          a_next = (if zero_bytes dst n (e - 8) 8 nx = nx then a_next a
                    else addr_ref E (zero_bytes dst n (e - 8) 8 nx))\<rparr>)"

definition zero_stores :: "env \<Rightarrow> addr \<Rightarrow> 64 word \<Rightarrow> mstate \<Rightarrow> mstate" where
  "zero_stores E dst n s =
     s\<lparr>nodes := (\<lambda>p. map_option (zero_node dst n p) (nodes s p)),
       allocators := (\<lambda>x. map_option (zero_alloc E dst n x) (allocators s x))\<rparr>"

text \<open>The loop and the \<open>memset\<close> on the whole memory state: the bytes, and the headers
  and allocator instances that the \<open>8 * NOFILE\<close> bytes of the loop and the \<open>PGSIZE\<close>
  bytes of the \<open>memset\<close> reach, both from \<open>p->ofile\<close> on.\<close>

definition zero_ofile :: "env \<Rightarrow> addr \<Rightarrow> mstate \<Rightarrow> mstate" where
  "zero_ofile E ofile m =
     zero_stores E ofile PGSIZE
       (zero_stores E ofile (8 * of_nat (NOFILE E))
          (m\<lparr>mem := clear_ofile (NOFILE E) ofile (mem m)\<rparr>))"

text \<open>Lines 169--200 of \<open>allocproc\<close>: the open-file table and the rest of the
  descriptor. The message of the panic is written without its newline.\<close>

definition allocproc_files :: "env \<Rightarrow> nat \<Rightarrow> kstate \<Rightarrow> error + (nat option \<times> kstate)" where
  "allocproc_files E p s =
     (case kmalloc (sizeof_allocator E) (ucast (of_nat (NOFILE E) * 8 :: 64 word)) (km s) of
        Inl e \<Rightarrow> Inl e
      | Inr (ofile, m1) \<Rightarrow>
          let s1 = proc_upd p (\<lambda>q. q\<lparr>p_ofile := ofile\<rparr>) (s\<lparr>km := m1\<rparr>) in
          if ofile = NULL then Inl (Panic ''proc ofile init'')
          else
            let s2 = s1\<lparr>km := zero_ofile E ofile (km s1)\<rparr>
            in
            Inr (Some p,
                 proc_upd p
                   (\<lambda>q. q\<lparr>p_context := \<lparr>c_ra = forkret E,
                                        c_sp = p_kstack q + PGSIZE,
                                        c_saved = replicate (length (c_saved (p_context q))) 0\<rparr>,
                          p_tms := \<lparr>utime = 0, stime = 0, cutime = 1, cstime = 1\<rparr>,
                          p_sig_act := NULL,
                          p_sig_frame := NULL,
                          p_sig_pending := replicate (length (p_sig_pending q)) 0,
                          p_killed := 0\<rparr>) s2))"

text \<open>Lines 158--167 of \<open>allocproc\<close>: the kernel stack and the page table.\<close>

definition allocproc_stack :: "env \<Rightarrow> nat \<Rightarrow> kstate \<Rightarrow> error + (nat option \<times> kstate)" where
  "allocproc_stack E p s =
     (case allocpage (km s) of
        (ks, m1) \<Rightarrow>
          let s1 = proc_upd p (\<lambda>q. q\<lparr>p_kstack := ks\<rparr>) (s\<lparr>km := m1\<rparr>) in
          (case proc_pagetable E p s1 of
             (pt, s2) \<Rightarrow>
               if pt = NULL then
                 (case freeproc E p s2 of
                    Inl e \<Rightarrow> Inl e
                  | Inr s3 \<Rightarrow>
                      Inr (None, proc_upd p (\<lambda>q. q\<lparr>p_lock := release (p_lock q)\<rparr>) s3))
               else allocproc_files E p s2))"

text \<open>From the label \<open>found\<close> to line 156; \<open>p\<close> is locked.\<close>

definition allocproc_found :: "env \<Rightarrow> nat \<Rightarrow> kstate \<Rightarrow> error + (nat option \<times> kstate)" where
  "allocproc_found E p s =
     (case allocpid s of
        Inl e \<Rightarrow> Inl e
      | Inr (pid, s1) \<Rightarrow>
          let s2 = proc_upd p
                     (\<lambda>q. q\<lparr>p_pid := pid, p_killed := 0, p_filelimit := of_nat (NOFILE E),
                            p_robust_list := NULL, p_clear_child_tid := NULL,
                            p_set_child_tid := NULL, p_vma := NULL\<rparr>) s1
          in
          (case allocpage (km s2) of
             (tf, m3) \<Rightarrow>
               let s3 = proc_upd p (\<lambda>q. q\<lparr>p_trapframe := tf\<rparr>) (s2\<lparr>km := m3\<rparr>) in
               if tf = NULL
               then Inr (None, proc_upd p (\<lambda>q. q\<lparr>p_lock := release (p_lock q)\<rparr>) s3)
               else allocproc_stack E p s3))"

definition allocproc :: "env \<Rightarrow> kstate \<Rightarrow> error + (nat option \<times> kstate)" where
  "allocproc E s =
     (case allocproc_scan 0 s of
        Inl e \<Rightarrow> Inl e
      | Inr (None, s1) \<Rightarrow> Inr (None, s1)
      | Inr (Some p, s1) \<Rightarrow> allocproc_found E p s1)"

subsection \<open>The scheduler\<close>

text \<open>One turn of the \<open>while(1)\<close> loop of \<open>scheduler\<close>. \<open>MAKE_SATP\<close> is absent
  (\<open>include/riscv.h\<close>); the trace records the page table that it is applied to.\<close>

definition scheduler_iter :: "env \<Rightarrow> kstate \<Rightarrow> error + kstate" where
  "scheduler_iter E s =
     (let p = runproc s;
          s1 = s\<lparr>runproc := None\<rparr>
      in case p of
           None \<Rightarrow> Inr (s1\<lparr>trace := trace s1 @ [Intr_on, Wfi]\<rparr>)
         | Some i \<Rightarrow>
             if \<not> i < length (proc s1) then Inl Undefined
             else
               (case acquire (p_lock (proc s1 ! i)) of
                  Inl e \<Rightarrow> Inl e
                | Inr lk \<Rightarrow>
                    let s2 = proc_upd i (\<lambda>q. q\<lparr>p_lock := lk\<rparr>) s1 in
                    if p_state (proc s2 ! i) = RUNNABLE then
                      let s3 = (proc_upd i (\<lambda>q. q\<lparr>p_state := RUNNING\<rparr>) s2)\<lparr>cpu_proc := Some i\<rparr>;
                          s4 = s3\<lparr>trace := trace s3 @
                                  [W_satp (p_pagetable (proc s3 ! i)), Sfence_vma, Swtch i]\<rparr>
                      in
                      (case swtch E i s4 of
                         Inl e \<Rightarrow> Inl e
                       | Inr s5 \<Rightarrow>
                           let s6 = s5\<lparr>trace := trace s5 @ [W_satp (kernel_pagetable E), Sfence_vma],
                                       cpu_proc := None\<rparr>
                           in if \<not> i < length (proc s6) then Inl Undefined
                              else Inr (proc_upd i (\<lambda>q. q\<lparr>p_lock := release (p_lock q)\<rparr>) s6))
                    else Inr (proc_upd i (\<lambda>q. q\<lparr>p_lock := release (p_lock q)\<rparr>) s2)))"

text \<open>\<open>scheduler\<close> never returns; \<open>n\<close> turns of its loop.\<close>

fun scheduler_turns :: "env \<Rightarrow> nat \<Rightarrow> kstate \<Rightarrow> error + kstate" where
  "scheduler_turns E 0 s = Inr s"
| "scheduler_turns E (Suc n) s =
     (case scheduler_iter E s of Inl e \<Rightarrow> Inl e | Inr s1 \<Rightarrow> scheduler_turns E n s1)"

definition scheduler :: "env \<Rightarrow> nat \<Rightarrow> kstate \<Rightarrow> error + kstate" where
  "scheduler E n s = scheduler_turns E n (s\<lparr>cpu_proc := None\<rparr>)"

subsection \<open>Start of the process subsystem, and callers of allocproc\<close>

definition procinit :: "kstate \<Rightarrow> kstate" where
  "procinit s = s\<lparr>pid_lock := False, initproc := None\<rparr>"

text \<open>What \<open>userinit\<close> does with the slot that \<open>allocproc\<close> gave it (lines 255 and
  259): mark it \<open>RUNNABLE\<close> and release its lock.\<close>

definition publish :: "nat \<Rightarrow> kstate \<Rightarrow> kstate" where
  "publish p s =
     proc_upd p (\<lambda>q. q\<lparr>p_lock := release (p_lock q)\<rparr>) (proc_upd p (\<lambda>q. q\<lparr>p_state := RUNNABLE\<rparr>) s)"

text \<open>\<open>n\<close> calls of \<open>allocproc\<close>, each caller publishing the slot it got, and the slots
  among their results.\<close>

fun allocproc_seq :: "env \<Rightarrow> nat \<Rightarrow> kstate \<Rightarrow> error + (nat option list \<times> kstate)" where
  "allocproc_seq E 0 s = Inr ([], s)"
| "allocproc_seq E (Suc n) s =
     (case allocproc E s of
        Inl e \<Rightarrow> Inl e
      | Inr (r, s1) \<Rightarrow>
          (case allocproc_seq E n (case r of None \<Rightarrow> s1 | Some p \<Rightarrow> publish p s1) of
             Inl e \<Rightarrow> Inl e
           | Inr (rs, s2) \<Rightarrow> Inr (r # rs, s2)))"


subsection \<open>States and an environment for closed examples\<close>

text \<open>A zeroed descriptor, the memory after \<open>kmallocinit\<close> with a given pool of pages,
  and the kernel state after \<open>procinit\<close> with a table of \<open>n\<close> slots
  (\<open>int nextpid = 1\<close>; the other globals start as zero).\<close>

definition proc0 :: proc where
  "proc0 = \<lparr>p_lock = False, p_state = UNUSED, p_pid = 0, p_parent = None,
            p_name = replicate 16 0, p_chan = NULL, p_killed = 0, p_xstate = 0, p_sz = 0,
            p_filelimit = 0, p_robust_list = NULL, p_clear_child_tid = NULL,
            p_set_child_tid = NULL, p_vma = NULL, p_trapframe = NULL, p_kstack = 0,
            p_pagetable = NULL, p_ofile = NULL,
            p_context = \<lparr>c_ra = 0, c_sp = 0, c_saved = replicate 12 0\<rparr>,
            p_tms = \<lparr>utime = 0, stime = 0, cutime = 0, cstime = 0\<rparr>,
            p_sig_act = NULL, p_sig_frame = NULL, p_sig_pending = [0], p_tmask = 0\<rparr>"

definition mem_boot :: "32 word \<Rightarrow> addr list \<Rightarrow> mstate" where
  "mem_boot K pages =
     kmallocinit K
       \<lparr>freelist = pages, nodes = Map.empty,
        kmem_adam = \<lparr>a_lock = False, a_obj_size = 0, a_npages = 0, a_nobjs = 0,
                     a_list = NULL, a_next = ANull\<rparr>,
        allocators = Map.empty, kmem_table = (\<lambda>i. ANull), kmem_table_lock = False,
        mem = (\<lambda>a. 0)\<rparr>"

definition boot :: "32 word \<Rightarrow> nat \<Rightarrow> addr list \<Rightarrow> kstate" where
  "boot K n pages =
     procinit \<lparr>km = mem_boot K pages, proc = replicate n proc0, nextpid = 1, pid_lock = False,
               initproc = None, runproc = None, cpu_proc = None, trace = []\<rparr>"

text \<open>An environment: 16 open files, a 48-byte allocator structure, an address space
  that costs one page for its page table and one for its VMA list, signal state that
  needs no release, and a process that marks itself \<open>RUNNABLE\<close> before it switches
  back.\<close>

definition env0 :: env where
  "env0 = \<lparr>NOFILE = 16, sizeof_allocator = 48, kmem_adam_addr = 0x80004000,
           forkret = 0x80002000,
           kernel_pagetable = 0x80001000,
           kvmcreate = allocpage, vma_list_init = allocpage,
           freewalk = freepage, uvmfree = (\<lambda>q. freepage (p_pagetable q)),
           sigaction_free = (\<lambda>a m. m), sigframefree = (\<lambda>a m. m),
           swtch = (\<lambda>i s. Inr (proc_upd i (\<lambda>q. q\<lparr>p_state := RUNNABLE\<rparr>) s))\<rparr>"

text \<open>The same with an address space that needs no page.\<close>

definition env1 :: env where
  "env1 = env0\<lparr>kvmcreate := (\<lambda>m. (0x80001000, m)), vma_list_init := (\<lambda>m. (0x80003000, m))\<rparr>"

text \<open>The state of a call, when it returned.\<close>

definition state_of :: "error + ('a \<times> 's) \<Rightarrow> 's \<Rightarrow> 's" where
  "state_of r d = (case r of Inl e \<Rightarrow> d | Inr (x, s) \<Rightarrow> s)"

definition value_of :: "error + ('a \<times> 's) \<Rightarrow> error + 'a" where
  "value_of r = map_sum id fst r"

text \<open>A memory with one free page left and a slab node for 128-byte objects that has
  room: \<open>kmalloc(128)\<close> on a fresh allocator with three pages.\<close>

definition mem_one_page :: mstate where
  "mem_one_page =
     state_of (kmalloc 48 128 (mem_boot 48 [0x80010000, 0x80011000, 0x80012000]))
       (mem_boot 48 [])"




text \<open>A slot to be freed: a zombie with a kernel stack and signal state, whose
  trapframe, open-file table and page table are gone already.\<close>

definition zombie_slot :: kstate where
  "zombie_slot =
     (boot 48 1 [])\<lparr>proc :=
        [proc0\<lparr>p_lock := True, p_state := ZOMBIE, p_pid := 7, p_killed := 1, p_xstate := 3,
               p_kstack := 0x80010000, p_sig_act := 0x80020040, p_sig_frame := 0x80020080\<rparr>]\<rparr>"

text \<open>A memory with a live 128-byte object \<open>0x800110C0\<close> full of \<open>0xAA\<close> bytes, next
  to a free slot \<open>0x80011040\<close> that the next \<open>kmalloc(128)\<close> returns: two
  allocations, the second one filled, the first one freed.\<close>

definition mem_neighbour :: mstate where
  "mem_neighbour =
     (let m1 = state_of (kmalloc 48 128 (mem_boot 48
                  [0x80010000, 0x80011000, 0x80012000, 0x80013000, 0x80014000])) (mem_boot 48 []);
          m2 = state_of (kmalloc 48 128 m1) m1;
          m3 = m2\<lparr>mem := memset 0x800110C0 0xAA 128 (mem m2)\<rparr>
      in case kfree 48 0x80011040 m3 of Inl e \<Rightarrow> m3 | Inr m4 \<Rightarrow> m4)"

section \<open>The invariant of the object allocator\<close>

text \<open>
  The size classes: multiples of 16 from 32 to 4048. A node of class \<open>c\<close> has
  \<open>capa c\<close> objects, and its object region starts \<open>region c\<close> bytes into the page.
\<close>

definition class_ok :: "nat \<Rightarrow> bool" where
  "class_ok c \<longleftrightarrow> 32 \<le> c \<and> c \<le> 4048 \<and> 16 dvd c"

definition capa :: "nat \<Rightarrow> nat" where
  "capa c = 4064 div (c + 1)"

definition region :: "nat \<Rightarrow> nat" where
  "region c = (26 + capa c + 15) div 16 * 16"

definition page_ok :: "addr \<Rightarrow> bool" where
  "page_ok p \<longleftrightarrow> p \<noteq> NULL \<and> PGROUNDDOWN p = p"

text \<open>The free list of a node: the indices from \<open>avail\<close> along \<open>table\<close> up to
  \<open>TABLE_END\<close>.\<close>

fun chain :: "8 word list \<Rightarrow> 8 word \<Rightarrow> nat list \<Rightarrow> bool" where
  "chain t a [] \<longleftrightarrow> a = TABLE_END"
| "chain t a (x # xs) \<longleftrightarrow> a \<noteq> TABLE_END \<and> x = unat a \<and> x < length t \<and> chain t (t ! x) xs"

text \<open>The nodes from a list head along \<open>next\<close> up to \<open>NULL\<close>, and the allocators from
  a bucket of \<open>kmem_table\<close> along \<open>next\<close> up to \<open>NULL\<close>.\<close>

fun nlist :: "(addr \<rightharpoonup> kmem_node) \<Rightarrow> addr \<Rightarrow> addr list \<Rightarrow> bool" where
  "nlist h q [] \<longleftrightarrow> q = NULL"
| "nlist h q (p # ps) \<longleftrightarrow>
     q = p \<and> p \<noteq> NULL \<and> (case h p of None \<Rightarrow> False | Some n \<Rightarrow> nlist h (n_next n) ps)"

fun achain :: "mstate \<Rightarrow> aref \<Rightarrow> aref list \<Rightarrow> bool" where
  "achain s r [] \<longleftrightarrow> r = ANull"
| "achain s r (x # xs) \<longleftrightarrow>
     r = x \<and> (case alloc_at s x of None \<Rightarrow> False | Some a \<Rightarrow> achain s (a_next a) xs)"

text \<open>A node at page \<open>p\<close> of class \<open>c\<close> with the free list \<open>xs\<close>: the start of its
  object region, a table of \<open>capa c\<close> entries, a free list without repetition, the
  count of the objects in use. A well-formed node has at least one object in use.\<close>

definition node_shape :: "addr \<Rightarrow> kmem_node \<Rightarrow> nat \<Rightarrow> nat list \<Rightarrow> bool" where
  "node_shape p n c xs \<longleftrightarrow>
     class_ok c \<and> n_obj_size n = of_nat c \<and> n_obj_addr n = p + of_nat (region c) \<and>
     length (n_table n) = capa c \<and> chain (n_table n) (n_avail n) xs \<and> distinct xs \<and>
     unat (n_cnt n) + length xs = capa c"

definition node_ok :: "addr \<Rightarrow> kmem_node \<Rightarrow> bool" where
  "node_ok p n \<longleftrightarrow> (\<exists>c xs. node_shape p n c xs \<and> length xs < capa c)"

text \<open>The objects in use: in a node, the slots that are not on its free list; in a
  memory state, those of all nodes (allocator instances included).\<close>

definition free_slots :: "kmem_node \<Rightarrow> nat set" where
  "free_slots n = {i. \<exists>xs. chain (n_table n) (n_avail n) xs \<and> i \<in> set xs}"

definition objects :: "kmem_node \<Rightarrow> addr set" where
  "objects n =
     {n_obj_addr n + of_nat i * n_obj_size n | i. i < length (n_table n) \<and> i \<notin> free_slots n}"

definition live :: "mstate \<Rightarrow> addr set" where
  "live s = {a. \<exists>p n. nodes s p = Some n \<and> a \<in> objects n}"

text \<open>The bytes of the object region of a node.\<close>

definition in_region :: "kmem_node \<Rightarrow> addr \<Rightarrow> bool" where
  "in_region n a \<longleftrightarrow>
     unat (n_obj_addr n) \<le> unat a \<and>
     unat a < unat (n_obj_addr n) + length (n_table n) * unat (n_obj_size n)"

text \<open>A well-formed allocator: unlocked, and its list holds, once each, the nodes of
  its class that have a free slot.\<close>

definition has_space :: "mstate \<Rightarrow> 32 word \<Rightarrow> addr set" where
  "has_space s c = {p. \<exists>n. nodes s p = Some n \<and> n_obj_size n = ucast c \<and> n_avail n \<noteq> TABLE_END}"

definition alloc_ok :: "mstate \<Rightarrow> kmem_allocator \<Rightarrow> bool" where
  "alloc_ok s a \<longleftrightarrow>
     \<not> a_lock a \<and> class_ok (unat (a_obj_size a)) \<and>
     (\<exists>ps. nlist (nodes s) (a_list a) ps \<and> distinct ps \<and> set ps = has_space s (a_obj_size a))"

text \<open>A well-formed bucket: a chain of well-formed allocators of different classes
  that hash to the bucket. \<open>alloc_for s c r\<close>: \<open>r\<close> is the allocator of class \<open>c\<close>.\<close>

definition bucket_ok :: "mstate \<Rightarrow> nat \<Rightarrow> bool" where
  "bucket_ok s b \<longleftrightarrow>
     (\<exists>rs. achain s (kmem_table s b) rs \<and> distinct rs \<and>
        inj_on (\<lambda>r. map_option a_obj_size (alloc_at s r)) (set rs) \<and>
        (\<forall>r \<in> set rs. \<forall>a. alloc_at s r = Some a \<longrightarrow>
           alloc_ok s a \<and> unat (a_obj_size a) mod 17 = b))"

definition alloc_for :: "mstate \<Rightarrow> nat \<Rightarrow> aref \<Rightarrow> bool" where
  "alloc_for s c r \<longleftrightarrow>
     (\<exists>rs a. achain s (kmem_table s (c mod 17)) rs \<and> r \<in> set rs \<and>
        alloc_at s r = Some a \<and> unat (a_obj_size a) = c)"

text \<open>
  The invariant: the free pages are pages, different from each other and from the
  nodes; every node sits on a page, is well-formed and has the allocator of its class;
  the buckets are well-formed; \<open>kmem_adam\<close> is the allocator of the class of
  \<open>struct kmem_allocator\<close>; the allocator instances are objects in use.
  \<open>slab_inv\<close> adds that \<open>kmem_table_lock\<close> is free.
\<close>

definition slab_inv0 :: "32 word \<Rightarrow> mstate \<Rightarrow> bool" where
  "slab_inv0 K s \<longleftrightarrow>
     finite (dom (nodes s)) \<and>
     distinct (freelist s) \<and>
     (\<forall>p \<in> set (freelist s). page_ok p \<and> nodes s p = None) \<and>
     (\<forall>p n. nodes s p = Some n \<longrightarrow>
        page_ok p \<and> node_ok p n \<and> (\<exists>r. alloc_for s (unat (n_obj_size n)) r)) \<and>
     (\<forall>b < 17. bucket_ok s b) \<and>
     alloc_for s (unat (ROUNDUP16 K)) Adam \<and>
     dom (allocators s) \<subseteq> live s"

definition slab_inv :: "32 word \<Rightarrow> mstate \<Rightarrow> bool" where
  "slab_inv K s \<longleftrightarrow> slab_inv0 K s \<and> \<not> kmem_table_lock s"

text \<open>
  What one call may change. \<open>same_allocs\<close>: the same buckets, and the same allocators
  with the same class and the same successor in the bucket. \<open>page_total\<close>: the pages that
  are free or hold a node. \<open>took s a s'\<close>: from \<open>s\<close> to \<open>s'\<close> the object \<open>a\<close>, which
  was not in use, came into use, and nothing else did.
\<close>

definition same_allocs :: "mstate \<Rightarrow> mstate \<Rightarrow> bool" where
  "same_allocs s s' \<longleftrightarrow>
     kmem_table s' = kmem_table s \<and>
     (\<forall>x. map_option (\<lambda>a. (a_obj_size a, a_next a)) (alloc_at s' x) =
          map_option (\<lambda>a. (a_obj_size a, a_next a)) (alloc_at s x))"

definition page_total :: "mstate \<Rightarrow> nat" where
  "page_total s = length (freelist s) + card (dom (nodes s))"

definition took :: "mstate \<Rightarrow> addr \<Rightarrow> mstate \<Rightarrow> bool" where
  "took s a s' \<longleftrightarrow>
     same_allocs s s' \<and> kmem_table_lock s' = kmem_table_lock s \<and> mem s' = mem s \<and>
     a \<noteq> NULL \<and> a \<notin> live s \<and> live s' = insert a (live s) \<and> page_total s' = page_total s"

text \<open>
  The reachable states of the allocator, each with the set of the objects that
  \<open>kmalloc\<close> has returned to its callers and \<open>kfree\<close> has not got back: from the
  state after \<open>kmallocinit\<close> with a pool of pages, by \<open>kmalloc\<close>, by \<open>kfree\<close> of such
  an object, by other users of the page allocator taking a page or giving back one
  of theirs, and by writes to the bytes of memory.
\<close>

inductive reach :: "32 word \<Rightarrow> mstate \<Rightarrow> addr set \<Rightarrow> bool" for K :: "32 word" where
  boot: "distinct pages \<Longrightarrow> list_all page_ok pages \<Longrightarrow> reach K (mem_boot K pages) {}"
| malloc: "reach K s L \<Longrightarrow> kmalloc K sz s = Inr (a, s') \<Longrightarrow>
           reach K s' (if a = NULL then L else insert a L)"
| free: "reach K s L \<Longrightarrow> a \<in> L \<Longrightarrow> kfree K a s = Inr s' \<Longrightarrow> reach K s' (L - {a})"
| page_taken: "reach K s L \<Longrightarrow> allocpage s = (p, s') \<Longrightarrow> reach K s' L"
| page_given: "reach K s L \<Longrightarrow> page_ok p \<Longrightarrow> p \<notin> set (freelist s) \<Longrightarrow> nodes s p = None \<Longrightarrow>
               reach K (freepage p s) L"
| written: "reach K s L \<Longrightarrow> reach K (s\<lparr>mem := m\<rparr>) L"

text \<open>
  A caller that frees a list of objects one after the other, and the objects in use
  of the nodes at a set of pages.
\<close>

fun kfree_list :: "32 word \<Rightarrow> addr list \<Rightarrow> mstate \<Rightarrow> error + mstate" where
  "kfree_list K [] s = Inr s"
| "kfree_list K (a # as) s =
     (case kfree K a s of Inl e \<Rightarrow> Inl e | Inr s' \<Rightarrow> kfree_list K as s')"

definition objects_of :: "mstate \<Rightarrow> addr set \<Rightarrow> addr set" where
  "objects_of s P = {a. \<exists>p n. p \<in> P \<and> nodes s p = Some n \<and> a \<in> objects n}"

text \<open>A memory whose only node for 4048-byte objects is full (it has room for one
  object): \<open>kmalloc(4048)\<close> on a fresh allocator with two pages.\<close>

definition mem_full_node :: mstate where
  "mem_full_node =
     state_of (kmalloc 48 4048 (mem_boot 48 [0x80010000, 0x80011000])) (mem_boot 48 [])"

section \<open>Properties\<close>

subsection \<open>Word facts\<close>

lemma unat_ucast_32_64: "unat (ucast (w :: 32 word) :: 64 word) = unat w"
proof -
  have "unat w < 2 ^ 32" using unsigned_less [of w, where 'a=nat] by simp
  then have "unat w < 2 ^ 64" by simp
  then show ?thesis by (simp add: unsigned_ucast_eq take_bit_nat_eq_self)
qed

lemma ucast_MIN: "(ucast KMEM_OBJ_MIN_SIZE :: 32 word) = 32"
  by (simp add: KMEM_OBJ_MIN_SIZE_def)

subsection \<open>Size limits of kmalloc\<close>

lemma kmalloc_too_small:
  "sz < 32 \<Longrightarrow> kmalloc K sz s = kmalloc K 32 s"
  unfolding kmalloc.simps [of K sz] kmalloc.simps [of K 32] ucast_MIN
  by (simp add: KMEM_OBJ_MIN_SIZE_def KMEM_OBJ_MAX_SIZE_def word_less_nat_alt unat_ucast_32_64)

lemma kmalloc_too_large:
  "4048 < sz \<Longrightarrow> kmalloc K sz s = Inr (NULL, s)"
  by (simp add: kmalloc.simps [of K sz]
      KMEM_OBJ_MIN_SIZE_def KMEM_OBJ_MAX_SIZE_def word_less_nat_alt unat_ucast_32_64)

text \<open>
  C6. \<open>kmalloc\<close> treats a size below \<open>KMEM_OBJ_MIN_SIZE\<close> (32) exactly as the size
  32 and goes on with it, and answers a size above \<open>KMEM_OBJ_MAX_SIZE\<close> (4048) with
  \<open>NULL\<close>, leaving the state as it was; so does \<open>kmalloc(4049)\<close>.
\<close>

theorem kmalloc_size_limits:
  "(sz < 32 \<longrightarrow> kmalloc K sz s = kmalloc K 32 s) \<and>
   (4048 < sz \<longrightarrow> kmalloc K sz s = Inr (NULL, s)) \<and>
   kmalloc K 4049 s = Inr (NULL, s)"
  by (simp add: kmalloc_too_small kmalloc_too_large)

theorem kmalloc_size_limits_witness:
  "(7 :: 32 word) < 32 \<and>
   kmalloc 48 7 (mem_boot 48 [0x80010000, 0x80011000]) =
     kmalloc 48 32 (mem_boot 48 [0x80010000, 0x80011000]) \<and>
   map_sum id fst (kmalloc 48 7 (mem_boot 48 [0x80010000, 0x80011000])) = Inr 0x800110A0 \<and>
   (4048 :: 32 word) < 5000 \<and>
   kmalloc 48 5000 (mem_boot 48 [0x80010000, 0x80011000]) =
     Inr (NULL, mem_boot 48 [0x80010000, 0x80011000])"
proof -
  have e: "map_sum id fst (kmalloc 48 32 (mem_boot 48 [0x80010000, 0x80011000])) = Inr 0x800110A0"
    by code_simp
  show ?thesis
    using e kmalloc_size_limits [of 7 48 "mem_boot 48 [0x80010000, 0x80011000]"]
      kmalloc_size_limits [of 5000 48 "mem_boot 48 [0x80010000, 0x80011000]"]
    by simp
qed

subsection \<open>The process table: basic facts\<close>

lemma proc_upd_simps [simp]:
  "proc (proc_upd i f s) = (proc s)[i := f (proc s ! i)]"
  "km (proc_upd i f s) = km s"
  "nextpid (proc_upd i f s) = nextpid s"
  "pid_lock (proc_upd i f s) = pid_lock s"
  "runproc (proc_upd i f s) = runproc s"
  "initproc (proc_upd i f s) = initproc s"
  "cpu_proc (proc_upd i f s) = cpu_proc s"
  "trace (proc_upd i f s) = trace s"
  by (simp_all add: proc_upd_def)

lemma proc_upd_id: "f (proc s ! i) = proc s ! i \<Longrightarrow> proc_upd i f s = s"
  by (simp add: proc_upd_def)

lemma proc_upd_proc_upd: "proc_upd i f (proc_upd i g s) = proc_upd i (f \<circ> g) s"
  by (cases "i < length (proc s)") (simp_all add: proc_upd_def list_update_beyond not_less)

lemma relock_id:
  "\<not> p_lock (proc s ! i) \<Longrightarrow>
   proc_upd i (\<lambda>q. q\<lparr>p_lock := release (p_lock q)\<rparr>) (proc_upd i (\<lambda>q. q\<lparr>p_lock := True\<rparr>) s) = s"
  by (simp add: proc_upd_proc_upd proc_upd_id release_def)

lemma boot_simps [simp]:
  "pid_lock (boot K n pages) = False"
  "nextpid (boot K n pages) = 1"
  "proc (boot K n pages) = replicate n proc0"
  "runproc (boot K n pages) = None"
  "km (boot K n pages) = mem_boot K pages"
  "trace (boot K n pages) = []"
  by (simp_all add: boot_def procinit_def)

subsection \<open>allocpid\<close>

lemma allocpid_eq:
  "\<not> pid_lock s \<Longrightarrow> allocpid s = Inr (nextpid s, s\<lparr>nextpid := nextpid s + 1\<rparr>)"
  by (cases s) (simp add: allocpid_def acquire_def release_def)

lemma allocpid_seq_eq:
  "\<not> pid_lock s \<Longrightarrow>
   allocpid_seq k s =
     Inr (map (\<lambda>i. nextpid s + of_nat i) [0 ..< k], s\<lparr>nextpid := nextpid s + of_nat k\<rparr>)"
proof (induction k arbitrary: s)
  case 0
  then show ?case by simp
next
  case (Suc k)
  have "map (\<lambda>i. nextpid s + 1 + of_nat i) [0 ..< k] =
        map (\<lambda>i. nextpid s + of_nat i) [Suc 0 ..< Suc k]"
    by (simp add: map_Suc_upt [symmetric] del: upt_Suc add: add.assoc add.commute)
  with Suc show ?case
    by (simp add: allocpid_eq upt_conv_Cons add.assoc add.commute del: upt_Suc)
qed

lemma sint_pid:
  assumes "0 \<le> sint (c :: 32 word)" "sint c + int i < 2 ^ 31"
  shows "sint (c + of_nat i) = sint c + int i"
proof -
  have i: "int i < 2 ^ 31" using assms by linarith
  have "sint (word_of_int (int i) :: 32 word) = int i"
    using i by (simp only: sint_sbintrunc') (simp add: signed_take_bit_int_eq_self)
  then have "sint (of_nat i :: 32 word) = int i" by simp
  then have "sint (c + of_nat i) = signed_take_bit 31 (sint c + int i)"
    by (simp add: sint_word_ariths)
  then show ?thesis using assms by (simp add: signed_take_bit_int_eq_self)
qed

lemma freeproc_nextpid: "freeproc E p s = Inr s' \<Longrightarrow> nextpid s' = nextpid s"
  by (auto simp: freeproc_def Let_def split: if_splits sum.splits)

text \<open>
  C9, the claim as stated fails: \<open>nextpid\<close> is a 32-bit \<open>int\<close>. From the counter value
  \<open>INT_MAX\<close>, which \<open>2^31 - 2\<close> calls after initialisation reach, two calls return
  2147483647 and then -2147483648: not increasing.
\<close>

theorem allocpid_wraps_counterexample:
  "allocpid_seq 2 ((boot 48 1 [])\<lparr>nextpid := 0x7FFFFFFF\<rparr>) =
     Inr ([0x7FFFFFFF, 0x80000000], (boot 48 1 [])\<lparr>nextpid := 0x80000001\<rparr>) \<and>
   sint (0x7FFFFFFF :: 32 word) = 2147483647 \<and>
   sint (0x80000000 :: 32 word) = - 2147483648"
  by (simp add: allocpid_seq_eq [of _ 2] upt_conv_Cons del: upt_Suc)

text \<open>
  C9 (as amended). \<open>allocpid\<close> returns the value of \<open>nextpid\<close> and adds one to it.
  As long as the counter stays within \<open>INT_MAX\<close>, that is for \<open>k\<close> calls from the
  value \<open>c \<ge> 0\<close> with \<open>c + k \<le> 2^31\<close>, the calls return \<open>c, c + 1, \<dots>, c + k - 1\<close>,
  strictly increasing and pairwise distinct; \<open>freeproc\<close> does not touch the counter;
  the first five calls after initialisation return 1, 2, 3, 4, 5.
\<close>

theorem allocpid_sequence:
  "(\<not> pid_lock s \<longrightarrow> allocpid s = Inr (nextpid s, s\<lparr>nextpid := nextpid s + 1\<rparr>)) \<and>
   (\<not> pid_lock s \<and> 0 \<le> sint (nextpid s) \<and> sint (nextpid s) + int k \<le> 2 ^ 31 \<longrightarrow>
      (\<exists>pids s'. allocpid_seq k s = Inr (pids, s') \<and>
         map sint pids = map (\<lambda>i. sint (nextpid s) + int i) [0 ..< k] \<and>
         sorted_wrt (<) (map sint pids) \<and> distinct pids \<and>
         nextpid s' = nextpid s + of_nat k)) \<and>
   (freeproc E p s = Inr s'' \<longrightarrow> nextpid s'' = nextpid s) \<and>
   (\<not> pid_lock s \<and> nextpid s = 1 \<longrightarrow>
      allocpid_seq 5 s = Inr ([1, 2, 3, 4, 5], s\<lparr>nextpid := 6\<rparr>))"
proof (intro conjI impI)
  assume "\<not> pid_lock s"
  then show "allocpid s = Inr (nextpid s, s\<lparr>nextpid := nextpid s + 1\<rparr>)"
    by (rule allocpid_eq)
next
  assume a: "\<not> pid_lock s \<and> 0 \<le> sint (nextpid s) \<and> sint (nextpid s) + int k \<le> 2 ^ 31"
  let ?pids = "map (\<lambda>i. nextpid s + of_nat i) [0 ..< k]"
  have m: "map sint ?pids = map (\<lambda>i. sint (nextpid s) + int i) [0 ..< k]"
    using a by (simp add: sint_pid)
  have inc: "sorted_wrt (<) (map sint ?pids)"
    unfolding m by (simp add: sorted_wrt_map sorted_wrt_iff_nth_less)
  have "distinct (map sint ?pids)"
    unfolding m by (simp add: distinct_map inj_on_def)
  then have d: "distinct ?pids" by (simp only: distinct_map)
  show "\<exists>pids s'. allocpid_seq k s = Inr (pids, s') \<and>
         map sint pids = map (\<lambda>i. sint (nextpid s) + int i) [0 ..< k] \<and>
         sorted_wrt (<) (map sint pids) \<and> distinct pids \<and>
         nextpid s' = nextpid s + of_nat k"
    using a m inc d by (simp add: allocpid_seq_eq)
next
  assume "freeproc E p s = Inr s''"
  then show "nextpid s'' = nextpid s" by (rule freeproc_nextpid)
next
  assume "\<not> pid_lock s \<and> nextpid s = 1"
  then show "allocpid_seq 5 s = Inr ([1, 2, 3, 4, 5], s\<lparr>nextpid := 6\<rparr>)"
    by (simp add: allocpid_seq_eq [of s 5] upt_conv_Cons del: upt_Suc)
qed

theorem allocpid_sequence_witness:
  "\<not> pid_lock (boot 48 1 []) \<and> nextpid (boot 48 1 []) = 1 \<and>
   0 \<le> sint (1 :: 32 word) \<and> sint (1 :: 32 word) + int 3 \<le> 2 ^ 31 \<and>
   allocpid (boot 48 1 []) = Inr (1, (boot 48 1 [])\<lparr>nextpid := 2\<rparr>) \<and>
   (\<exists>pids s'. allocpid_seq 3 (boot 48 1 []) = Inr (pids, s') \<and>
      map sint pids = [1, 2, 3] \<and> sorted_wrt (<) (map sint pids) \<and> distinct pids \<and>
      nextpid s' = 4) \<and>
   (\<exists>s''. freeproc env0 0 (boot 48 1 []) = Inr s'' \<and> nextpid s'' = 1) \<and>
   allocpid_seq 5 (boot 48 1 []) = Inr ([1, 2, 3, 4, 5], (boot 48 1 [])\<lparr>nextpid := 6\<rparr>)"
proof -
  obtain s'' where f: "freeproc env0 0 (boot 48 1 []) = Inr s''"
    by (simp add: freeproc_def proc0_def env0_def Let_def)
  show ?thesis
    using f allocpid_sequence [of "boot 48 1 []" 3 env0 0 s'']
    by (simp add: upt_conv_Cons del: upt_Suc)
qed

subsection \<open>The scheduler\<close>

lemma sched_idle:
  "runproc s = None \<Longrightarrow>
   scheduler_iter E s = Inr (s\<lparr>runproc := None, trace := trace s @ [Intr_on, Wfi]\<rparr>)"
  by (simp add: scheduler_iter_def)

lemma sched_skip:
  assumes "runproc s = Some i" "i < length (proc s)" "\<not> p_lock (proc s ! i)"
    "p_state (proc s ! i) \<noteq> RUNNABLE"
  shows "scheduler_iter E s = Inr (s\<lparr>runproc := None\<rparr>)"
proof -
  have "\<not> p_lock (proc (s\<lparr>runproc := None\<rparr>) ! i)" using assms by simp
  from relock_id [OF this] show ?thesis
    using assms by (simp add: scheduler_iter_def acquire_def Let_def)
qed

lemma sched_switch:
  assumes "runproc s = Some i" "i < length (proc s)" "\<not> p_lock (proc s ! i)"
    "p_state (proc s ! i) = RUNNABLE"
  shows "scheduler_iter E s =
     (case swtch E i
             ((proc_upd i (\<lambda>q. q\<lparr>p_lock := True, p_state := RUNNING\<rparr>) s)
                \<lparr>runproc := None, cpu_proc := Some i,
                 trace := trace s @ [W_satp (p_pagetable (proc s ! i)), Sfence_vma, Swtch i]\<rparr>) of
        Inl e \<Rightarrow> Inl e
      | Inr s5 \<Rightarrow>
          if i < length (proc s5)
          then Inr (proc_upd i (\<lambda>q. q\<lparr>p_lock := False\<rparr>)
                     (s5\<lparr>trace := trace s5 @ [W_satp (kernel_pagetable E), Sfence_vma],
                         cpu_proc := None\<rparr>))
          else Inl Undefined)"
proof -
  define S where
    "S = (proc_upd i (\<lambda>q. q\<lparr>p_lock := True, p_state := RUNNING\<rparr>) s)
            \<lparr>runproc := None, cpu_proc := Some i,
             trace := trace s @ [W_satp (p_pagetable (proc s ! i)), Sfence_vma, Swtch i]\<rparr>"
  have "(proc_upd i (\<lambda>q. q\<lparr>p_state := RUNNING\<rparr>)
           (proc_upd i (\<lambda>q. q\<lparr>p_lock := True\<rparr>) (s\<lparr>runproc := None\<rparr>)))
          \<lparr>cpu_proc := Some i,
           trace := trace s @ [W_satp (p_pagetable (proc s ! i)), Sfence_vma, Swtch i]\<rparr>
        = S"
    unfolding S_def using assms by (cases s) (simp add: proc_upd_def)
  then have "scheduler_iter E s =
     (case swtch E i S of
        Inl e \<Rightarrow> Inl e
      | Inr s5 \<Rightarrow>
          if i < length (proc s5)
          then Inr (proc_upd i (\<lambda>q. q\<lparr>p_lock := False\<rparr>)
                     (s5\<lparr>trace := trace s5 @ [W_satp (kernel_pagetable E), Sfence_vma],
                         cpu_proc := None\<rparr>))
          else Inl Undefined)"
    using assms
    by (simp add: scheduler_iter_def acquire_def Let_def release_def proc_upd_proc_upd comp_def
        split: sum.splits)
  then show ?thesis unfolding S_def .
qed

text \<open>
  C10. One turn of the scheduler loop takes the staged process and clears
  \<open>runproc\<close>. With nothing staged the hart enables interrupts and waits. With
  process \<open>i\<close> staged and its lock free, \<open>swtch\<close> is called only if the state of
  \<open>i\<close> is \<open>RUNNABLE\<close> once the lock is held, and it is called in a state where
  \<open>i\<close> is \<open>RUNNING\<close>, locked, and the hart's current process; otherwise the turn
  only clears \<open>runproc\<close>, and returns without error.
\<close>

theorem scheduler_switches_only_runnable:
  "(runproc s = None \<longrightarrow>
      scheduler_iter E s = Inr (s\<lparr>runproc := None, trace := trace s @ [Intr_on, Wfi]\<rparr>)) \<and>
   (runproc s = Some i \<and> i < length (proc s) \<and> \<not> p_lock (proc s ! i) \<longrightarrow>
      (p_state (proc s ! i) \<noteq> RUNNABLE \<longrightarrow> scheduler_iter E s = Inr (s\<lparr>runproc := None\<rparr>)) \<and>
      (p_state (proc s ! i) = RUNNABLE \<longrightarrow>
         (let s4 = (proc_upd i (\<lambda>q. q\<lparr>p_lock := True, p_state := RUNNING\<rparr>) s)
                     \<lparr>runproc := None, cpu_proc := Some i,
                      trace := trace s @
                        [W_satp (p_pagetable (proc s ! i)), Sfence_vma, Swtch i]\<rparr>
          in runproc s4 = None \<and> p_state (proc s4 ! i) = RUNNING \<and> p_lock (proc s4 ! i) \<and>
             cpu_proc s4 = Some i \<and>
             scheduler_iter E s =
               (case swtch E i s4 of
                  Inl e \<Rightarrow> Inl e
                | Inr s5 \<Rightarrow>
                    if i < length (proc s5)
                    then Inr (proc_upd i (\<lambda>q. q\<lparr>p_lock := False\<rparr>)
                               (s5\<lparr>trace := trace s5 @
                                     [W_satp (kernel_pagetable E), Sfence_vma],
                                   cpu_proc := None\<rparr>))
                    else Inl Undefined))))"
  by (simp add: sched_idle sched_skip sched_switch Let_def)

theorem scheduler_switches_only_runnable_witness:
  "runproc (boot 48 2 []) = None \<and>
   scheduler_iter env0 (boot 48 2 []) =
     Inr ((boot 48 2 [])\<lparr>runproc := None, trace := [Intr_on, Wfi]\<rparr>) \<and>
   runproc ((boot 48 2 [])\<lparr>runproc := Some 1\<rparr>) = Some 1 \<and>
   1 < length (proc ((boot 48 2 [])\<lparr>runproc := Some 1\<rparr>)) \<and>
   \<not> p_lock (proc ((boot 48 2 [])\<lparr>runproc := Some 1\<rparr>) ! 1) \<and>
   p_state (proc ((boot 48 2 [])\<lparr>runproc := Some 1\<rparr>) ! 1) \<noteq> RUNNABLE \<and>
   scheduler_iter env0 ((boot 48 2 [])\<lparr>runproc := Some 1\<rparr>) = Inr ((boot 48 2 [])\<lparr>runproc := None\<rparr>) \<and>
   p_state (proc ((proc_upd 1 (\<lambda>q. q\<lparr>p_state := RUNNABLE\<rparr>) (boot 48 2 []))\<lparr>runproc := Some 1\<rparr>) ! 1)
     = RUNNABLE \<and>
   map_sum id trace
     (scheduler_iter env0 ((proc_upd 1 (\<lambda>q. q\<lparr>p_state := RUNNABLE\<rparr>) (boot 48 2 []))\<lparr>runproc := Some 1\<rparr>))
     = Inr [W_satp NULL, Sfence_vma, Swtch 1, W_satp 0x80001000, Sfence_vma]"
  using scheduler_switches_only_runnable [of "boot 48 2 []" env0 1]
    scheduler_switches_only_runnable [of "(boot 48 2 [])\<lparr>runproc := Some 1\<rparr>" env0 1]
    scheduler_switches_only_runnable
      [of "(proc_upd 1 (\<lambda>q. q\<lparr>p_state := RUNNABLE\<rparr>) (boot 48 2 []))\<lparr>runproc := Some 1\<rparr>" env0 1]
  by (simp add: proc0_def env0_def numeral_2_eq_2)

text \<open>
  C1, the code at three failing inputs. With an address space that needs no page and
  only two pages left, the table of open files cannot be allocated and \<open>allocproc\<close>
  panics; with one page left and room in the slab, the kernel stack is \<open>NULL\<close> and
  \<open>allocproc\<close> returns the slot, its stack pointer at \<open>0 + PGSIZE\<close>; when the page
  table cannot be built, \<open>freeproc\<close> hands the trapframe page, which came from
  \<open>allocpage\<close>, to \<open>kfree\<close>, which reads it as a slab node. In none of the three is
  failure returned to the caller.
\<close>

theorem allocproc_failure_counterexample:
  "value_of (allocproc env1 (boot 48 1 [0x80010000, 0x80011000])) =
     Inl (Panic ''proc ofile init'') \<and>
   map_sum id (\<lambda>(r, s). (r, map p_kstack (proc s), map (\<lambda>q. c_sp (p_context q)) (proc s)))
     (allocproc env1 ((boot 48 1 [])\<lparr>km := mem_one_page\<rparr>)) = Inr (Some 0, [NULL], [4096]) \<and>
   value_of (allocproc env0 (boot 48 1 [0x80010000, 0x80011000])) = Inl Undefined"
  by code_simp


text \<open>
  C3, the code at a failing input: \<open>freeproc\<close> on a zombie with a kernel stack and
  signal state sets the state to \<open>UNUSED\<close> and the pid, kill flag and exit status to
  0, and leaves the pointers to the kernel stack, to the signal actions and to the
  signal frames as they were.
\<close>

theorem freeproc_keeps_pointers:
  "map_sum id
     (map (\<lambda>q. (p_state q, p_pid q, p_killed q, p_xstate q, p_kstack q, p_sig_act q, p_sig_frame q))
        \<circ> proc)
     (freeproc env0 0 zombie_slot)
   = Inr [(UNUSED, 0, 0, 0, 0x80010000, 0x80020040, 0x80020080)]"
  by code_simp

text \<open>
  C4, the code at a failing input: the table of 16 file pointers is the 128-byte
  object \<open>0x80011040\<close>; the live object next to it, at \<open>0x800110C0\<close>, held \<open>0xAA\<close>
  bytes before \<open>allocproc\<close> and holds zeros after it, and so does the first byte
  of the next page: \<open>memset(p->ofile, 0, PGSIZE)\<close> clears 4096 bytes.
\<close>

theorem allocproc_clears_neighbour:
  "map (mem mem_neighbour) [0x800110C0, 0x8001113F] = [0xAA, 0xAA] \<and>
   map_sum id (\<lambda>(r, s). (r, map p_ofile (proc s), map (mem (km s)) [0x800110C0, 0x8001113F]))
     (allocproc env1 ((boot 48 1 [])\<lparr>km := mem_neighbour\<rparr>))
   = Inr (Some 0, [0x80011040], [0, 0])"
  by code_simp




lemma scan_first:
  "p < length (proc s) \<Longrightarrow> i \<le> p \<Longrightarrow> p_state (proc s ! p) = UNUSED \<Longrightarrow>
   (\<forall>j. i \<le> j \<and> j \<le> p \<longrightarrow> \<not> p_lock (proc s ! j)) \<Longrightarrow>
   (\<forall>j. i \<le> j \<and> j < p \<longrightarrow> p_state (proc s ! j) \<noteq> UNUSED) \<Longrightarrow>
   allocproc_scan i s = Inr (Some p, proc_upd p (\<lambda>q. q\<lparr>p_lock := True\<rparr>) s)"
proof (induction i s rule: allocproc_scan.induct)
  case (1 i s)
  show ?case
  proof (cases "i = p")
    case True
    with "1.prems" show ?thesis
      by (simp add: allocproc_scan.simps [of p s] acquire_def)
  next
    case False
    with "1.prems" have lt: "i < p" "i < length (proc s)" by auto
    with "1.prems" have l: "\<not> p_lock (proc s ! i)" and u: "p_state (proc s ! i) \<noteq> UNUSED"
      by auto
    have "allocproc_scan (i + 1) s = Inr (Some p, proc_upd p (\<lambda>q. q\<lparr>p_lock := True\<rparr>) s)"
      using "1.IH" [of True] lt u l "1.prems" by (simp add: acquire_def relock_id)
    with lt l u show ?thesis
      by (simp add: allocproc_scan.simps [of i s] acquire_def relock_id)
  qed
qed








lemma allocpage_empty: "freelist m = [] \<Longrightarrow> allocpage m = (NULL, m)"
  by (simp add: allocpage_def)


lemma allocproc_found_no_page:
  assumes "\<not> pid_lock s" "freelist (km s) = []" "p < length (proc s)"
  shows "\<exists>s'. allocproc_found E p s = Inr (None, s') \<and> \<not> p_lock (proc s' ! p) \<and>
           p_state (proc s' ! p) = p_state (proc s ! p) \<and> km s' = km s \<and>
           nextpid s' = nextpid s + 1"
  using assms
  by (simp add: allocproc_found_def allocpid_eq allocpage_empty Let_def release_def)












text \<open>
  A run in which a call does not return although pages are left: three slots, an
  address space that needs no page, ten pages handed out from the highest down. The
  \<open>memset\<close> of the first call clears the header of the node of allocator instances,
  which is the page after the table of open files; that of the second call clears
  the allocator of the 128-byte objects too; the third call finds no allocator, gets
  \<open>NULL\<close> for a new one and panics.
\<close>

lemma allocproc_seq_panics:
  "value_of (allocproc_seq env1 2 (boot 48 3
      [0x80019000, 0x80018000, 0x80017000, 0x80016000, 0x80015000, 0x80014000,
       0x80013000, 0x80012000, 0x80011000, 0x80010000])) = Inr [Some 0, Some 1] \<and>
   value_of (allocproc_seq env1 3 (boot 48 3
      [0x80019000, 0x80018000, 0x80017000, 0x80016000, 0x80015000, 0x80014000,
       0x80013000, 0x80012000, 0x80011000, 0x80010000])) = Inl (Panic ''proc ofile init'')"
  by code_simp

section \<open>The object allocator: the invariant holds\<close>

text \<open>
  \<open>kmalloc\<close> and \<open>kfree\<close> keep \<open>slab_inv\<close>, so it holds in every reachable state
  (\<open>reach_inv\<close>). The facts about sizes, node tables and lists come first, then one
  lemma for each path through \<open>kmalloc\<close> and \<open>kfree\<close>.
\<close>

subsection \<open>Rounding with masks\<close>

lemma and_not_mask_push_drop:
  "x AND NOT (mask n) = push_bit n (drop_bit n x)" for x :: "'a::len word"
  by (rule bit_eqI) (auto simp: bit_simps)

lemma unat_and_not_mask:
  "unat (x AND NOT (mask n)) = unat x div 2 ^ n * 2 ^ n" for x :: "'a::len word"
proof -
  have le: "unat x div 2 ^ n * 2 ^ n \<le> unat x"
    by simp
  have "unat x < 2 ^ LENGTH('a)" by simp
  with le have lt: "unat x div 2 ^ n * 2 ^ n < 2 ^ LENGTH('a)" by linarith
  have "unat (push_bit n (drop_bit n x)) = take_bit LENGTH('a) (push_bit n (unat (drop_bit n x)))"
    by (simp add: unsigned_push_bit_eq)
  also have "\<dots> = take_bit LENGTH('a) (unat x div 2 ^ n * 2 ^ n)"
    by (simp only: unat_drop_bit_eq) (simp add: push_bit_eq_mult drop_bit_eq_div)
  also have "\<dots> = unat x div 2 ^ n * 2 ^ n"
    using lt by (simp add: take_bit_nat_eq_self)
  finally show ?thesis by (simp add: and_not_mask_push_drop)
qed

lemma mask4: "(15 :: 'a::len word) = mask 4"
  by (simp add: mask_eq_exp_minus_1)

lemma mask12: "(PGSIZE - 1 :: 'a::len word) = mask 12"
  by (simp add: mask_eq_exp_minus_1 PGSIZE_def)

lemma unat_ROUNDUP16:
  "unat w + 15 < 2 ^ LENGTH('a) \<Longrightarrow> unat (ROUNDUP16 w) = (unat w + 15) div 16 * 16"
  for w :: "'a::len word"
proof -
  assume a: "unat w + 15 < 2 ^ LENGTH('a)"
  have "unat (15 :: 'a word) \<le> 15" 
    by (metis unat_of_nat mod_less_eq_dividend of_nat_numeral)
  then have "unat (w + 15) = unat w + unat (15 :: 'a word)" using a
    by (intro unat_add_lem [THEN iffD1]) linarith
  moreover have "unat (15 :: 'a word) = 15" using a
    by (metis unat_of_nat mod_less of_nat_numeral add_lessD1 add.commute)
  ultimately show ?thesis
    by (simp add: ROUNDUP16_def mask4 unat_and_not_mask)
qed

lemma unat_PGROUNDDOWN: "unat (PGROUNDDOWN a) = unat a div 4096 * 4096"
  by (simp add: PGROUNDDOWN_def mask12 unat_and_not_mask)

subsection \<open>Size classes\<close>

lemma capa_bounds: "class_ok c \<Longrightarrow> 1 \<le> capa c \<and> capa c \<le> 123"
proof -
  assume c: "class_ok c"
  then have a: "c + 1 \<le> 4064" "(33::nat) \<le> c + 1" by (simp_all add: class_ok_def)
  have "0 < 4064 div (c + 1)" using a(1) by (simp only: div_greater_zero_iff) simp
  moreover have "4064 div (c + 1) \<le> 4064 div 33"
    using a(2) by (intro div_le_mono2) simp_all
  ultimately show ?thesis by (simp add: capa_def)
qed

lemma region_dvd: "16 dvd region c"
  by (simp add: region_def)

lemma region_fits: "class_ok c \<Longrightarrow> region c + capa c * c \<le> 4096"
proof -
  assume c: "class_ok c"
  have "capa c * (c + 1) \<le> 4064" unfolding capa_def by (rule div_times_less_eq_dividend)
  then have a: "capa c * c + capa c \<le> 4064" by simp
  have "region c \<le> 26 + capa c + 15" by (simp add: region_def)
  with a have b: "region c + capa c * c \<le> 4105" by linarith
  from c have "16 dvd c" by (simp add: class_ok_def)
  then have "16 dvd region c + capa c * c" using region_dvd by (simp add: dvd_add)
  then obtain k where k: "region c + capa c * c = 16 * k" by (auto simp: dvd_def)
  with b have "k \<le> 256" by linarith
  with k show ?thesis by simp
qed

lemma region_ge: "32 \<le> region c"
  by (simp add: region_def)

lemma class_ok_roundup:
  "32 \<le> n \<Longrightarrow> n \<le> 4048 \<Longrightarrow> class_ok ((n + 15) div 16 * 16)"
  by (simp add: class_ok_def) arith

lemma class_ok_fix: "class_ok c \<Longrightarrow> (c + 15) div 16 * 16 = c"
  by (auto simp: class_ok_def dvd_def)

lemma unat_of_nat32: "n < 2 ^ 32 \<Longrightarrow> unat (of_nat n :: 32 word) = n"
  by (simp add: unat_of_nat)

lemma unat_of_nat64: "n < 2 ^ 64 \<Longrightarrow> unat (of_nat n :: 64 word) = n"
  by (simp add: unat_of_nat)

lemma unat_of_nat8: "n < 256 \<Longrightarrow> unat (of_nat n :: 8 word) = n"
  by (simp add: unat_of_nat)

lemma word_eq_of_natI: "unat x = n \<Longrightarrow> x = of_nat n"
  by auto

lemma ROUNDUP16_32:
  assumes "unat sz \<le> 4048"
  shows "ROUNDUP16 (sz :: 32 word) = of_nat ((unat sz + 15) div 16 * 16)"
proof -
  have "unat (ROUNDUP16 sz) = (unat sz + 15) div 16 * 16"
    using assms by (intro unat_ROUNDUP16) simp
  then show ?thesis by (rule word_eq_of_natI)
qed

lemma ROUNDUP16_64:
  assumes "unat w \<le> 4100"
  shows "ROUNDUP16 (w :: 64 word) = of_nat ((unat w + 15) div 16 * 16)"
proof -
  have "unat (ROUNDUP16 w) = (unat w + 15) div 16 * 16"
    using assms by (intro unat_ROUNDUP16) simp
  then show ?thesis by (rule word_eq_of_natI)
qed

lemma ucast_of_nat_32_64: "n < 2 ^ 32 \<Longrightarrow> (ucast (of_nat n :: 32 word) :: 64 word) = of_nat n"
  by (simp add: unsigned_of_nat take_bit_nat_eq_self)

lemma calc_capa_class:
  assumes "class_ok c"
  shows "calc_capa (of_nat c) = of_nat (capa c)"
proof -
  from assms have c: "c \<le> 4048" by (simp add: class_ok_def)
  have r: "ROUNDUP16 KMEM_NODE_FIX = (32 :: 64 word)"
    by (simp add: KMEM_NODE_FIX_def ROUNDUP16_def)
  have "(of_nat c + 1 :: 32 word) = of_nat (c + 1)" by simp
  moreover have "(ucast (of_nat (c + 1) :: 32 word) :: 64 word) = of_nat (c + 1)"
    using c by (intro ucast_of_nat_32_64) simp
  ultimately have "(ucast (of_nat c + 1 :: 32 word) :: 64 word) = of_nat (c + 1)"
    by (simp only:)
  moreover have "unat (of_nat (c + 1) :: 64 word) = c + 1"
    using c by (intro unat_of_nat64) simp
  ultimately have "unat (calc_capa (of_nat c)) = 4064 div (c + 1)"
    by (simp only: calc_capa_def r PGSIZE_def unat_div) simp
  then show ?thesis unfolding capa_def by (rule word_eq_of_natI)
qed

lemma capa8:
  assumes "class_ok c"
  shows "(ucast (calc_capa (of_nat c)) :: 8 word) = of_nat (capa c)" "unat (of_nat (capa c) :: 8 word) = capa c"
    "(of_nat (capa c) :: 8 word) \<noteq> 0"
proof -
  from capa_bounds [OF assms] have b: "1 \<le> capa c" "capa c \<le> 123" by simp_all
  have "capa c < 2 ^ 64" using b by simp
  then show "(ucast (calc_capa (of_nat c)) :: 8 word) = of_nat (capa c)"
    by (simp add: calc_capa_class [OF assms] unsigned_of_nat take_bit_nat_eq_self)
  show u: "unat (of_nat (capa c) :: 8 word) = capa c" using b by (simp add: unat_of_nat8)
  show "(of_nat (capa c) :: 8 word) \<noteq> 0" using u b by (metis not_one_le_zero unat_0)
qed

lemma region_word:
  assumes "class_ok c"
  shows "ROUNDUP16 (KMEM_NODE_FIX + ucast (of_nat (capa c) :: 8 word)) = (of_nat (region c) :: 64 word)"
proof -
  from capa_bounds [OF assms] have b: "capa c \<le> 123" by simp
  have "(ucast (of_nat (capa c) :: 8 word) :: 64 word) = of_nat (capa c)"
  proof -
    have "capa c < 2 ^ 8" "capa c < 2 ^ 64" using b by simp_all
    then show ?thesis by (simp add: unsigned_of_nat take_bit_nat_eq_self)
  qed
  then have "KMEM_NODE_FIX + ucast (of_nat (capa c) :: 8 word) = (of_nat (26 + capa c) :: 64 word)"
    by (simp add: KMEM_NODE_FIX_def)
  moreover have "unat (of_nat (26 + capa c) :: 64 word) = 26 + capa c"
    using b by (intro unat_of_nat64) simp
  ultimately show ?thesis
    using b by (simp add: ROUNDUP16_64 region_def del: of_nat_add)
qed

lemma hash_class: "class_ok c \<Longrightarrow> unat (hash (of_nat c :: 64 word)) = c mod 17"
  by (simp add: hash_def KMEM_TABLE_SIZE_def unat_mod unat_of_nat64 class_ok_def)

subsection \<open>The free list of a node\<close>

lemma chain_unique: "chain t a xs \<Longrightarrow> chain t a ys \<Longrightarrow> xs = ys"
proof (induction xs arbitrary: a ys)
  case Nil
  then show ?case by (cases ys) auto
next
  case (Cons x xs)
  then show ?case by (cases ys) auto
qed

lemma chain_bound: "chain t a xs \<Longrightarrow> x \<in> set xs \<Longrightarrow> x < length t \<and> x < 255"
proof (induction xs arbitrary: a)
  case Nil
  then show ?case by simp
next
  case (Cons y ys)
  have "unat a < 256" using unsigned_less [of a, where 'a = nat] by simp
  moreover have "a \<noteq> 255 \<Longrightarrow> unat a \<noteq> 255" by (auto simp: word_unat_eq_iff)
  ultimately have "a \<noteq> 255 \<Longrightarrow> unat a < 255" by linarith
  with Cons show ?case by (auto simp: TABLE_END_def)
qed

lemma chain_update: "chain t a xs \<Longrightarrow> i \<notin> set xs \<Longrightarrow> chain (t[i := v]) a xs"
  by (induction xs arbitrary: a) auto

lemma chain_push:
  assumes "chain t a xs" "i \<notin> set xs" "i < length t" "i < 255"
  shows "chain (t[i := a]) (of_nat i) (i # xs)"
proof -
  have u: "unat (of_nat i :: 8 word) = i" using assms(4) by (simp add: unat_of_nat8)
  then have "(of_nat i :: 8 word) \<noteq> 255" using assms(4) by (auto simp: word_unat_eq_iff)
  with u assms show ?thesis by (simp add: chain_update TABLE_END_def)
qed

lemma free_slots_chain: "chain (n_table n) (n_avail n) xs \<Longrightarrow> free_slots n = set xs"
  by (auto simp: free_slots_def dest: chain_unique)

lemma chain_empty_iff: "chain t a xs \<Longrightarrow> xs = [] \<longleftrightarrow> a = TABLE_END"
  by (cases xs) auto

subsection \<open>The table of a fresh node\<close>

lemma uint_lt_unat: "uint (i :: 8 word) < uint (cp :: 8 word) - 1 \<longleftrightarrow> unat i + 1 < unat cp"
  by (simp only: uint_nat) linarith

lemma unat_succ8: "unat (i :: 8 word) + 1 < 256 \<Longrightarrow> unat (i + 1) = unat i + 1"
  by (simp add: unat_word_ariths)

lemma fill_table_nth:
  "length (fill_table i cp t) = length t \<and>
   (\<forall>j < length t. fill_table i cp t ! j =
      (if unat i \<le> j \<and> j + 1 < unat cp then of_nat (j + 1) else t ! j))"
proof (induction i cp t rule: fill_table.induct)
  case (1 i cp t)
  show ?case
  proof (cases "unat i + 1 < unat cp")
    case False
    then show ?thesis by (auto simp: fill_table.simps [of i cp t] uint_lt_unat)
  next
    case True
    have "unat cp < 256" using unsigned_less [of cp, where 'a = nat] by simp
    with True have s: "unat (i + 1) = unat i + 1" by (intro unat_succ8) simp
    have w: "i + 1 = of_nat (unat i + 1)" by simp
    from True have ih: "length (fill_table (i + 1) cp (t[unat i := i + 1])) = length t \<and>
      (\<forall>j < length t. fill_table (i + 1) cp (t[unat i := i + 1]) ! j =
        (if unat (i + 1) \<le> j \<and> j + 1 < unat cp then of_nat (j + 1)
         else (t[unat i := i + 1]) ! j))"
      using "1.IH" by (simp add: uint_lt_unat)
    have e: "fill_table i cp t = fill_table (i + 1) cp (t[unat i := i + 1])"
      using True by (simp add: fill_table.simps [of i cp t] uint_lt_unat)
    show ?thesis
      unfolding e
    proof (intro conjI allI impI)
      show "length (fill_table (i + 1) cp (t[unat i := i + 1])) = length t" using ih by simp
    next
      fix j assume j: "j < length t"
      show "fill_table (i + 1) cp (t[unat i := i + 1]) ! j =
            (if unat i \<le> j \<and> j + 1 < unat cp then of_nat (j + 1) else t ! j)"
      proof (cases "j = unat i")
        case True
        with ih j s \<open>unat i + 1 < unat cp\<close> show ?thesis by simp
      next
        case False
        with ih j s show ?thesis by (auto simp del: of_nat_add of_nat_Suc)
      qed
    qed
  qed
qed

lemma chain_fresh:
  assumes "length T = n" "n \<le> 254"
    "\<forall>j. j + 1 < n \<longrightarrow> T ! j = of_nat (j + 1)" "T ! (n - 1) = TABLE_END"
  shows "i < n \<Longrightarrow> chain T (of_nat i) [i ..< n]"
proof (induction "n - i" arbitrary: i)
  case 0
  then show ?case by simp
next
  case (Suc k)
  have u: "unat (of_nat i :: 8 word) = i" using Suc.prems assms(2) by (simp add: unat_of_nat8)
  then have ne: "(of_nat i :: 8 word) \<noteq> TABLE_END"
    using Suc.prems assms(2) by (auto simp: word_unat_eq_iff TABLE_END_def)
  show ?case
  proof (cases "i + 1 < n")
    case True
    then have "chain T (of_nat (i + 1)) [i + 1 ..< n]" using Suc by (intro Suc.hyps) simp_all
    with True assms u ne Suc.prems show ?thesis
      by (simp add: upt_conv_Cons del: of_nat_add of_nat_Suc)
  next
    case False
    with Suc.prems have "i = n - 1" "[i ..< n] = [i]" by (simp_all add: upt_conv_Cons)
    with assms u ne Suc.prems show ?thesis by simp
  qed
qed

lemma format_node_class:
  assumes c: "class_ok c"
  shows "\<exists>T. format_node p (of_nat c) =
           Inr \<lparr>n_next = NULL, n_obj_size = of_nat c, n_obj_addr = p + of_nat (region c),
                n_avail = 0, n_cnt = 0, n_table = T\<rparr> \<and>
           length T = capa c \<and> chain T 0 [0 ..< capa c]"
proof -
  from capa_bounds [OF c] have b: "1 \<le> capa c" "capa c \<le> 123" by simp_all
  from c have r: "ROUNDUP16 (of_nat c :: 32 word) = of_nat c"
  proof -
    from c have "c \<le> 4048" by (simp add: class_ok_def)
    then have "unat (of_nat c :: 32 word) = c" by (intro unat_of_nat32) simp
    with \<open>c \<le> 4048\<close> show ?thesis by (simp add: ROUNDUP16_32 class_ok_fix [OF c])
  qed
  define T where "T = (fill_table 0 (of_nat (capa c)) (replicate (capa c) 0))[capa c - 1 := TABLE_END]"
  have u: "unat (of_nat (capa c) :: 8 word) = capa c" by (rule capa8 [OF c])
  note f = fill_table_nth [of 0 "of_nat (capa c)" "replicate (capa c) 0", unfolded u]
  have len: "length T = capa c" using f by (simp add: T_def)
  have nth: "\<forall>j. j + 1 < capa c \<longrightarrow> T ! j = of_nat (j + 1)"
    using f by (auto simp: T_def simp del: of_nat_add of_nat_Suc)
  have last: "T ! (capa c - 1) = TABLE_END" using f b by (simp add: T_def)
  have "chain T (of_nat 0) [0 ..< capa c]"
    using b by (intro chain_fresh [OF len _ nth last]) simp_all
  then have ch: "chain T 0 [0 ..< capa c]" by simp
  have cl: "c < 2 ^ 32" using c by (simp add: class_ok_def)
  have "format_node p (of_nat c) =
           Inr \<lparr>n_next = NULL, n_obj_size = of_nat c, n_obj_addr = p + of_nat (region c),
                n_avail = 0, n_cnt = 0, n_table = T\<rparr>"
    unfolding format_node_def r Let_def capa8 [OF c] region_word [OF c] T_def
    using capa8(3) [OF c] u cl by (simp add: ucast_of_nat_32_64)
  with len ch show ?thesis by blast
qed

subsection \<open>Pages and addresses\<close>

lemma page_ok_unat:
  assumes "page_ok p"
  shows "unat p mod 4096 = 0" "4096 \<le> unat p" "unat p + 4096 \<le> 2 ^ 64"
proof -
  from assms have e: "unat p div 4096 * 4096 = unat p" and nz: "p \<noteq> 0"
    by (simp_all add: page_ok_def unat_PGROUNDDOWN [symmetric])
  then show m: "unat p mod 4096 = 0" by (metis mod_mult_self2_is_0)
  from nz have "unat p \<noteq> 0" by (simp add: unat_eq_zero)
  with m show "4096 \<le> unat p" by (metis mod_less not_le)
  have "unat p < 2 ^ 64" using unsigned_less [of p, where 'a = nat] by simp
  moreover obtain k where "unat p = 4096 * k" using m by (auto simp: mod_eq_0_iff_dvd dvd_def)
  ultimately show "unat p + 4096 \<le> 2 ^ 64" by simp
qed

lemma unat_page_off:
  assumes "page_ok p" "off < 4096"
  shows "unat (p + of_nat off) = unat p + off"
proof -
  note u = page_ok_unat [OF assms(1)]
  have o: "unat (of_nat off :: 64 word) = off" using assms(2) by (intro unat_of_nat64) simp
  have "unat p + unat (of_nat off :: 64 word) < 2 ^ LENGTH(64)" using u o assms(2) by simp
  then have "unat (p + of_nat off) = unat p + unat (of_nat off :: 64 word)"
    by (rule unat_add_lem [THEN iffD1])
  with o show ?thesis by simp
qed

lemma PGROUNDDOWN_page_off:
  assumes "page_ok p" "off < 4096"
  shows "PGROUNDDOWN (p + of_nat off) = p"
proof -
  note u = page_ok_unat [OF assms(1)]
  have "unat (PGROUNDDOWN (p + of_nat off)) = (unat p + off) div 4096 * 4096"
    by (simp only: unat_PGROUNDDOWN unat_page_off [OF assms])
  also have "\<dots> = unat p" using u(1) assms(2) by (auto simp: mod_eq_0_iff_dvd dvd_def)
  finally show ?thesis by (simp only: word_unat_eq_iff)
qed

lemma page_off_inj:
  assumes "page_ok p" "page_ok q" "i < 4096" "j < 4096" "p + of_nat i = q + of_nat j"
  shows "p = q \<and> i = j"
proof -
  have "PGROUNDDOWN (p + of_nat i) = p" by (rule PGROUNDDOWN_page_off [OF assms(1,3)])
  moreover have "PGROUNDDOWN (q + of_nat j) = q" by (rule PGROUNDDOWN_page_off [OF assms(2,4)])
  ultimately have pq: "p = q" using assms(5) by metis
  have "unat (p + of_nat i) = unat p + i" by (rule unat_page_off [OF assms(1,3)])
  moreover have "unat (q + of_nat j) = unat q + j" by (rule unat_page_off [OF assms(2,4)])
  ultimately have "unat p + i = unat q + j" using assms(5) by metis
  with pq show ?thesis by simp
qed

lemma page_off_nonzero: "page_ok p \<Longrightarrow> off < 4096 \<Longrightarrow> p + of_nat off \<noteq> NULL"
proof
  assume a: "page_ok p" "off < 4096" "p + of_nat off = NULL"
  have "unat (p + of_nat off) = unat p + off" by (rule unat_page_off [OF a(1,2)])
  with a(3) have "unat p + off = 0" by simp
  with page_ok_unat(2) [OF a(1)] show False by simp
qed

lemma page_off_aligned16:
  assumes "page_ok p" "off < 4096" "16 dvd off"
  shows "(p + of_nat off) AND 15 = 0"
proof -
  note u = page_ok_unat [OF assms(1)]
  have "16 dvd unat p" using u(1) by (auto simp: mod_eq_0_iff_dvd dvd_def) 
  then have "16 dvd unat (p + of_nat off)" using assms by (simp add: unat_page_off)
  then have "2 ^ 4 dvd unat (p + of_nat off)" by simp
  then have "(p + of_nat off) AND mask 4 = 0" by (simp only: and_mask_dvd_nat)
  then show ?thesis by (simp add: mask4)
qed

subsection \<open>The addresses of the slots\<close>

lemma obj_offset:
  assumes "class_ok c" "i < capa c"
  shows "region c + i * c < 4096" "region c + i * c + c \<le> 4096"
proof -
  have "i * c + c \<le> capa c * c" using assms(2) by (metis Suc_leI mult_Suc mult_le_mono1 add.commute)
  with region_fits [OF assms(1)] show "region c + i * c + c \<le> 4096" by simp
  moreover have "0 < c" using assms(1) by (simp add: class_ok_def)
  ultimately show "region c + i * c < 4096" by simp
qed

lemma obj_addr_word:
  "(p + of_nat (region c)) + of_nat i * of_nat c = (p + of_nat (region c + i * c) :: 64 word)"
  by simp

lemma obj_index:
  assumes "class_ok c" "i < capa c" "page_ok p"
  shows "(ucast (((p + of_nat (region c + i * c)) - (p + of_nat (region c))) div (of_nat c :: 64 word)) :: 8 word)
         = of_nat i"
proof -
  from assms(1) have c: "0 < c" "c \<le> 4048" by (simp_all add: class_ok_def)
  have ic: "i * c < 4096" using obj_offset(1) [OF assms(1,2)] by simp
  have "(p + of_nat (region c + i * c)) - (p + of_nat (region c)) = (of_nat (i * c) :: 64 word)"
    by simp
  moreover have "unat (of_nat (i * c) :: 64 word) = i * c" using ic by (intro unat_of_nat64) simp
  moreover have "unat (of_nat c :: 64 word) = c" using c by (intro unat_of_nat64) simp
  ultimately have "unat (((p + of_nat (region c + i * c)) - (p + of_nat (region c))) div (of_nat c :: 64 word)) = i"
    using c by (simp only: unat_div) simp
  then have "((p + of_nat (region c + i * c)) - (p + of_nat (region c))) div (of_nat c :: 64 word) = of_nat i"
    by (rule word_eq_of_natI)
  moreover have "i < 2 ^ 64" using capa_bounds [OF assms(1)] assms(2) by simp
  ultimately show ?thesis by (simp only: unsigned_of_nat) (simp add: take_bit_nat_eq_self)
qed

subsection \<open>The stores\<close>

lemma alloc_at_upd [simp]:
  "alloc_at (alloc_upd r f s) r' = (if r' = r then map_option f (alloc_at s r) else alloc_at s r')"
  by (auto simp: alloc_at_def alloc_upd_def split: aref.splits option.splits)

lemma alloc_upd_proj [simp]:
  "nodes (alloc_upd r f s) = nodes s"
  "freelist (alloc_upd r f s) = freelist s"
  "kmem_table (alloc_upd r f s) = kmem_table s"
  "kmem_table_lock (alloc_upd r f s) = kmem_table_lock s"
  "mem (alloc_upd r f s) = mem s"
  "dom (allocators (alloc_upd r f s)) = dom (allocators s)"
  by (auto simp: alloc_upd_def split: aref.splits option.splits)

lemma alloc_at_proj [simp]:
  "alloc_at (s\<lparr>nodes := h\<rparr>) = alloc_at s"
  "alloc_at (s\<lparr>freelist := fl\<rparr>) = alloc_at s"
  "alloc_at (s\<lparr>kmem_table := tb\<rparr>) = alloc_at s"
  "alloc_at (s\<lparr>kmem_table_lock := lk\<rparr>) = alloc_at s"
  "alloc_at (s\<lparr>mem := m\<rparr>) = alloc_at s"
  by (auto simp: alloc_at_def fun_eq_iff split: aref.splits)

lemma node_upd_proj [simp]:
  "nodes (node_upd p f s) = (case nodes s p of None \<Rightarrow> nodes s | Some n \<Rightarrow> (nodes s)(p \<mapsto> f n))"
  "alloc_at (node_upd p f s) = alloc_at s"
  "freelist (node_upd p f s) = freelist s"
  "kmem_table (node_upd p f s) = kmem_table s"
  "kmem_table_lock (node_upd p f s) = kmem_table_lock s"
  "allocators (node_upd p f s) = allocators s"
  "mem (node_upd p f s) = mem s"
  by (auto simp: node_upd_def alloc_at_def fun_eq_iff split: option.splits aref.splits)

lemma freepage_proj [simp]:
  "nodes (freepage p s) = nodes s"
  "alloc_at (freepage p s) = alloc_at s"
  "freelist (freepage p s) = p # freelist s"
  "kmem_table (freepage p s) = kmem_table s"
  "kmem_table_lock (freepage p s) = kmem_table_lock s"
  "allocators (freepage p s) = allocators s"
  "mem (freepage p s) = mem s"
  by (auto simp: freepage_def alloc_at_def fun_eq_iff split: aref.splits)

subsection \<open>Lists in the stores\<close>

lemma nlist_unique: "nlist h q ps \<Longrightarrow> nlist h q ps' \<Longrightarrow> ps = ps'"
proof (induction ps arbitrary: q ps')
  case Nil
  then show ?case by (cases ps') auto
next
  case (Cons p ps)
  then show ?case by (cases ps') (auto split: option.splits)
qed

lemma nlist_cong:
  "nlist h q ps \<Longrightarrow> (\<And>p. p \<in> set ps \<Longrightarrow> map_option n_next (h' p) = map_option n_next (h p)) \<Longrightarrow>
   nlist h' q ps"
proof (induction ps arbitrary: q)
  case Nil
  then show ?case by simp
next
  case (Cons p ps)
  from Cons.prems(1) obtain n where n: "h p = Some n" "q = p" "p \<noteq> NULL" "nlist h (n_next n) ps"
    by (auto split: option.splits)
  from Cons.prems(2) [of p] n obtain n' where n': "h' p = Some n'" "n_next n' = n_next n"
    by auto
  have "nlist h' (n_next n) ps" using Cons.prems(2) by (intro Cons.IH [OF n(4)]) simp
  with n n' show ?case by simp
qed

lemma nlist_dom: "nlist h q ps \<Longrightarrow> p \<in> set ps \<Longrightarrow> p \<noteq> NULL \<and> (\<exists>n. h p = Some n)"
  by (induction ps arbitrary: q) (auto split: option.splits)

lemma nlist_Null [simp]: "nlist h NULL ps \<longleftrightarrow> ps = []"
  by (cases ps) auto

lemma achain_unique: "achain s r rs \<Longrightarrow> achain s r rs' \<Longrightarrow> rs = rs'"
proof (induction rs arbitrary: r rs')
  case Nil
  then show ?case by (cases rs') (auto simp: alloc_at_def split: option.splits)
next
  case (Cons x xs)
  then show ?case by (cases rs') (auto simp: alloc_at_def split: option.splits)
qed

lemma achain_cong:
  "achain s r rs \<Longrightarrow>
   (\<And>x. x \<in> set rs \<Longrightarrow> map_option a_next (alloc_at s' x) = map_option a_next (alloc_at s x)) \<Longrightarrow>
   achain s' r rs"
proof (induction rs arbitrary: r)
  case Nil
  then show ?case by simp
next
  case (Cons x xs)
  from Cons.prems(1) obtain a where a: "alloc_at s x = Some a" "r = x" "achain s (a_next a) xs"
    by (auto split: option.splits)
  from Cons.prems(2) [of x] a obtain a' where a': "alloc_at s' x = Some a'" "a_next a' = a_next a"
    by auto
  have "achain s' (a_next a) xs" using Cons.prems(2) by (intro Cons.IH [OF a(3)]) simp
  with a a' show ?case by simp
qed

lemma achain_dom: "achain s r rs \<Longrightarrow> x \<in> set rs \<Longrightarrow> \<exists>a. alloc_at s x = Some a"
  by (induction rs arbitrary: r) (auto split: option.splits)

subsection \<open>The search of a bucket\<close>

lemma search_chain_find:
  assumes "achain s h rs"
  shows "search_chain s w h =
     Some (Inr (case find (\<lambda>r. \<exists>a. alloc_at s r = Some a \<and> w = ucast (a_obj_size a)) rs of
                  None \<Rightarrow> ANull | Some r \<Rightarrow> r))"
  using assms
proof (induction rs arbitrary: h)
  case Nil
  then show ?case by (subst search_chain.simps) simp
next
  case (Cons x xs)
  from Cons.prems(1) obtain a where a: "alloc_at s x = Some a" "h = x" "achain s (a_next a) xs"
    by (auto split: option.splits)
  then have nn: "x \<noteq> ANull" by (auto simp: alloc_at_def)
  show ?case
  proof (cases "w = ucast (a_obj_size a)")
    case True
    with a nn show ?thesis by (subst search_chain.simps) simp
  next
    case False
    have "search_chain s w (a_next a) =
      Some (Inr (case find (\<lambda>r. \<exists>a. alloc_at s r = Some a \<and> w = ucast (a_obj_size a)) xs of
                  None \<Rightarrow> ANull | Some r \<Rightarrow> r))"
      by (rule Cons.IH [OF a(3)])
    with False a nn show ?thesis by (subst search_chain.simps) simp
  qed
qed

subsection \<open>Finding the allocator of a class\<close>

lemma ucast32_eq_class:
  "c < 2 ^ 32 \<Longrightarrow> (of_nat c :: 64 word) = ucast (x :: 32 word) \<longleftrightarrow> unat x = c"
proof -
  assume c: "c < 2 ^ 32"
  have "unat (of_nat c :: 64 word) = c" using c by (intro unat_of_nat64) simp
  then show ?thesis by (metis unat_ucast_32_64 word_unat_eq_iff)
qed

lemma class_lt: "class_ok c \<Longrightarrow> c < 2 ^ 32"
  by (simp add: class_ok_def)

lemma alloc_for_unique:
  assumes "bucket_ok s (c mod 17)" "alloc_for s c r" "alloc_for s c r'"
  shows "r = r'"
proof -
  from assms(1) obtain rs where rs: "achain s (kmem_table s (c mod 17)) rs"
    "inj_on (\<lambda>r. map_option a_obj_size (alloc_at s r)) (set rs)"
    by (auto simp: bucket_ok_def)
  from assms(2) rs(1) obtain a where a: "r \<in> set rs" "alloc_at s r = Some a" "unat (a_obj_size a) = c"
    by (auto simp: alloc_for_def dest: achain_unique)
  from assms(3) rs(1) obtain a' where a': "r' \<in> set rs" "alloc_at s r' = Some a'" "unat (a_obj_size a') = c"
    by (auto simp: alloc_for_def dest: achain_unique)
  from a(3) a'(3) have "a_obj_size a = a_obj_size a'" by (simp add: word_unat_eq_iff)
  with a a' have "map_option a_obj_size (alloc_at s r) = map_option a_obj_size (alloc_at s r')"
    by simp
  with rs(2) a(1) a'(1) show ?thesis by (auto dest: inj_onD)
qed

lemma search_found:
  assumes b: "bucket_ok s (c mod 17)" and f: "alloc_for s c r" and c: "class_ok c"
  shows "search_table s (of_nat c) (kmem_table s (c mod 17)) = Inr r"
proof -
  from f obtain rs a where rs: "achain s (kmem_table s (c mod 17)) rs" "r \<in> set rs"
    "alloc_at s r = Some a" "unat (a_obj_size a) = c"
    by (auto simp: alloc_for_def)
  let ?P = "\<lambda>r. \<exists>a. alloc_at s r = Some a \<and> (of_nat c :: 64 word) = ucast (a_obj_size a)"
  have "(of_nat c :: 64 word) = ucast (a_obj_size a)"
    using rs(4) by (intro ucast32_eq_class [THEN iffD2] class_lt [OF c])
  then have "?P r" using rs by simp
  with rs(2) obtain r' where r': "find ?P rs = Some r'"
    by (cases "find ?P rs") (auto simp: find_None_iff)
  then have "?P r'" "r' \<in> set rs" by (auto simp: find_Some_iff)
  then obtain a' where "alloc_at s r' = Some a'" "(of_nat c :: 64 word) = ucast (a_obj_size a')"
    by auto
  then have "alloc_at s r' = Some a'" "unat (a_obj_size a') = c"
    using ucast32_eq_class [OF class_lt [OF c]] by auto
  then have "alloc_for s c r'" using rs(1) \<open>r' \<in> set rs\<close> by (auto simp: alloc_for_def)
  with alloc_for_unique [OF b f] have "r' = r" by simp
  with r' show ?thesis
    by (simp add: search_table_def search_chain_find [OF rs(1)])
qed

lemma search_missing:
  assumes b: "bucket_ok s (c mod 17)" and f: "\<forall>r. \<not> alloc_for s c r" and c: "class_ok c"
  shows "search_table s (of_nat c) (kmem_table s (c mod 17)) = Inr ANull"
    "head_matches s (c mod 17) (of_nat c) = Inr False"
proof -
  from b obtain rs where rs: "achain s (kmem_table s (c mod 17)) rs" by (auto simp: bucket_ok_def)
  let ?P = "\<lambda>r. \<exists>a. alloc_at s r = Some a \<and> (of_nat c :: 64 word) = ucast (a_obj_size a)"
  have "\<And>r. r \<in> set rs \<Longrightarrow> \<not> ?P r"
  proof
    fix r assume r: "r \<in> set rs" "?P r"
    then obtain a where "alloc_at s r = Some a" "(of_nat c :: 64 word) = ucast (a_obj_size a)"
      by auto
    then have "alloc_at s r = Some a" "unat (a_obj_size a) = c"
      using ucast32_eq_class [OF class_lt [OF c]] by auto
    then have "alloc_for s c r" using rs r(1) by (auto simp: alloc_for_def)
    with f show False by simp
  qed
  then have "find ?P rs = None" by (simp add: find_None_iff)
  then show "search_table s (of_nat c) (kmem_table s (c mod 17)) = Inr ANull"
    by (simp add: search_table_def search_chain_find [OF rs])
  show "head_matches s (c mod 17) (of_nat c) = Inr False"
  proof (cases rs)
    case Nil
    with rs show ?thesis by (simp add: head_matches_def)
  next
    case (Cons x xs)
    with rs obtain a where a: "kmem_table s (c mod 17) = x" "alloc_at s x = Some a"
      by (auto split: option.splits)
    then have "x \<noteq> ANull" by (auto simp: alloc_at_def)
    moreover have "x \<in> set rs" using Cons by simp
    then have "\<not> ?P x" by (rule \<open>\<And>r. r \<in> set rs \<Longrightarrow> \<not> ?P r\<close>)
    ultimately show ?thesis using a by (auto simp: head_matches_def)
  qed
qed

lemma get_allocator_found:
  assumes "bucket_ok s (c mod 17)" "alloc_for s c r" "class_ok c" "ROUNDUP16 raw = of_nat c"
  shows "get_allocator K raw s = Inr (r, s)"
proof -
  from assms(2) have "r \<noteq> ANull" by (auto simp: alloc_for_def alloc_at_def)
  then show ?thesis
    by (simp add: get_allocator.simps [of K raw s] assms(4) hash_class [OF assms(3)]
        search_found [OF assms(1,2,3)])
qed

subsection \<open>Taking an object\<close>

lemma kmalloc_take_run:
  assumes A: "alloc_at s r = Some A" and p: "a_list A = p" and n: "nodes s p = Some n"
    and i: "unat (n_avail n) < length (n_table n)"
  shows "\<exists>s'. kmalloc_take r s = Inr (n_obj_addr n + ucast (n_avail n) * n_obj_size n, s') \<and>
      nodes s' = (nodes s)(p \<mapsto> n\<lparr>n_cnt := n_cnt n + 1, n_avail := n_table n ! unat (n_avail n)\<rparr>) \<and>
      alloc_at s' = (alloc_at s)(r \<mapsto> A\<lparr>a_nobjs := a_nobjs A + 1,
          a_list := (if TABLE_END = n_table n ! unat (n_avail n) then n_next n else p),
          a_lock := False\<rparr>) \<and>
      freelist s' = freelist s \<and> kmem_table s' = kmem_table s \<and>
      kmem_table_lock s' = kmem_table_lock s \<and> dom (allocators s') = dom (allocators s) \<and>
      mem s' = mem s"
  using assms
  by (auto simp: kmalloc_take_def Let_def release_def fun_eq_iff)

subsection \<open>Keeping the invariant\<close>

lemma ucast_class: "(ucast (x :: 32 word) :: 64 word) = of_nat (unat x)"
  by (simp add: word_unat_eq_iff unat_ucast_32_64 unat_of_nat64 [OF less_trans [OF unsigned_less]])

lemma alloc_for_keep:
  assumes "alloc_for s c r0"
    and "\<And>x a. alloc_at s x = Some a \<Longrightarrow>
           \<exists>a'. alloc_at s' x = Some a' \<and> a_next a' = a_next a \<and> a_obj_size a' = a_obj_size a"
    and "kmem_table s' (c mod 17) = kmem_table s (c mod 17)"
  shows "alloc_for s' c r0"
proof -
  from assms(1) obtain rs a where rs: "achain s (kmem_table s (c mod 17)) rs" "r0 \<in> set rs"
    "alloc_at s r0 = Some a" "unat (a_obj_size a) = c"
    by (auto simp: alloc_for_def)
  have "achain s' (kmem_table s (c mod 17)) rs"
  proof (rule achain_cong [OF rs(1)])
    fix x assume "x \<in> set rs"
    then obtain b where "alloc_at s x = Some b" using achain_dom [OF rs(1)] by blast
    with assms(2) [OF this] show "map_option a_next (alloc_at s' x) = map_option a_next (alloc_at s x)"
      by auto
  qed
  moreover from assms(2) [OF rs(3)] obtain a' where "alloc_at s' r0 = Some a'"
    "a_obj_size a' = a_obj_size a" by auto
  ultimately show ?thesis using rs assms(3) by (auto simp: alloc_for_def)
qed

lemma slab_inv0_update:
  assumes inv: "slab_inv0 K s"
    and A: "alloc_at s r = Some A" and reg: "alloc_for s (unat (a_obj_size A)) r"
    and at: "alloc_at s' = (alloc_at s)(r \<mapsto> A')"
    and A': "a_obj_size A' = a_obj_size A" "a_next A' = a_next A" "\<not> a_lock A'"
    and tb: "kmem_table s' = kmem_table s"
    and dm: "dom (allocators s') = dom (allocators s)"
    and fin: "finite (dom (nodes s'))"
    and fl: "distinct (freelist s')" "\<forall>p \<in> set (freelist s'). page_ok p \<and> nodes s' p = None"
    and keep: "\<And>q n. nodes s q = Some n \<Longrightarrow> n_obj_size n \<noteq> ucast (a_obj_size A) \<Longrightarrow>
                 nodes s' q = Some n"
    and new: "\<And>q n'. nodes s' q = Some n' \<Longrightarrow>
                 nodes s q = Some n' \<or> (n_obj_size n' = ucast (a_obj_size A) \<and> node_ok q n' \<and> page_ok q)"
    and lst: "\<exists>ps. nlist (nodes s') (a_list A') ps \<and> distinct ps \<and>
                 set ps = has_space s' (a_obj_size A)"
    and lv: "dom (allocators s) \<subseteq> live s'"
  shows "slab_inv0 K s'"
proof -
  define c where "c = unat (a_obj_size A)"
  have same: "\<And>x a. alloc_at s x = Some a \<Longrightarrow>
           \<exists>a'. alloc_at s' x = Some a' \<and> a_next a' = a_next a \<and> a_obj_size a' = a_obj_size a"
    using A A' by (auto simp: at)
  have af: "\<And>c0 r0. alloc_for s c0 r0 \<Longrightarrow> alloc_for s' c0 r0"
    by (rule alloc_for_keep [OF _ same]) (simp_all add: tb)
  from inv have bk: "\<And>b. b < 17 \<Longrightarrow> bucket_ok s b" by (simp add: slab_inv0_def)
  have nodes': "\<And>p n. nodes s' p = Some n \<Longrightarrow>
        page_ok p \<and> node_ok p n \<and> (\<exists>r. alloc_for s' (unat (n_obj_size n)) r)"
  proof -
    fix p n assume n: "nodes s' p = Some n"
    from new [OF n] show "page_ok p \<and> node_ok p n \<and> (\<exists>r. alloc_for s' (unat (n_obj_size n)) r)"
    proof
      assume "nodes s p = Some n"
      with inv have "page_ok p \<and> node_ok p n \<and> (\<exists>r. alloc_for s (unat (n_obj_size n)) r)"
        by (simp add: slab_inv0_def)
      then show ?thesis using af by blast
    next
      assume a: "n_obj_size n = ucast (a_obj_size A) \<and> node_ok p n \<and> page_ok p"
      then have "unat (n_obj_size n) = unat (a_obj_size A)" by (simp add: unat_ucast_32_64)
      with a af [OF reg] show ?thesis by auto
    qed
  qed
  have buckets: "bucket_ok s' b" if b: "b < 17" for b
  proof -
    from bk [OF b] obtain rs where rs: "achain s (kmem_table s b) rs" "distinct rs"
      "inj_on (\<lambda>r. map_option a_obj_size (alloc_at s r)) (set rs)"
      "\<And>r a. r \<in> set rs \<Longrightarrow> alloc_at s r = Some a \<Longrightarrow> alloc_ok s a \<and> unat (a_obj_size a) mod 17 = b"
      by (auto simp: bucket_ok_def)
    have sz: "\<And>x. map_option a_obj_size (alloc_at s' x) = map_option a_obj_size (alloc_at s x)"
      using A A' by (auto simp: at)
    have ch: "achain s' (kmem_table s' b) rs"
      unfolding tb
    proof (rule achain_cong [OF rs(1)])
      fix x assume "x \<in> set rs"
      then obtain a where "alloc_at s x = Some a" using achain_dom [OF rs(1)] by blast
      with same [OF this] show "map_option a_next (alloc_at s' x) = map_option a_next (alloc_at s x)"
        by auto
    qed
    have inj: "inj_on (\<lambda>r. map_option a_obj_size (alloc_at s' r)) (set rs)"
      using rs(3) by (simp add: sz)
    have ok: "alloc_ok s' a' \<and> unat (a_obj_size a') mod 17 = b"
      if r0: "r0 \<in> set rs" and a': "alloc_at s' r0 = Some a'" for r0 a'
    proof (cases "r0 = r")
      case True
      with a' have e: "a' = A'" by (simp add: at)
      from rs(4) [OF r0 [unfolded True] A] have "alloc_ok s A" "unat (a_obj_size A) mod 17 = b"
        by simp_all
      then show ?thesis using A' lst by (simp add: e alloc_ok_def)
    next
      case False
      with a' have a: "alloc_at s r0 = Some a'" by (simp add: at)
      from rs(4) [OF r0 a] have ok: "alloc_ok s a'" and hb: "unat (a_obj_size a') mod 17 = b"
        by simp_all
      have ne: "a_obj_size a' \<noteq> a_obj_size A"
      proof
        assume e: "a_obj_size a' = a_obj_size A"
        have "alloc_for s (unat (a_obj_size A)) r0"
          using rs(1) r0 a e hb by (auto simp: alloc_for_def)
        moreover have "bucket_ok s (unat (a_obj_size A) mod 17)" by (rule bk) simp
        ultimately have "r0 = r" using reg by (auto dest: alloc_for_unique)
        with False show False by simp
      qed
      then have ne64: "(ucast (a_obj_size a') :: 64 word) \<noteq> ucast (a_obj_size A)"
        by (simp add: word_unat_eq_iff unat_ucast_32_64)
      have hs: "has_space s' (a_obj_size a') = has_space s (a_obj_size a')"
      proof (intro set_eqI iffI)
        fix q assume "q \<in> has_space s' (a_obj_size a')"
        then obtain n where n: "nodes s' q = Some n" "n_obj_size n = ucast (a_obj_size a')"
          "n_avail n \<noteq> TABLE_END" by (auto simp: has_space_def)
        with new [OF n(1)] ne64 have "nodes s q = Some n" by auto
        with n show "q \<in> has_space s (a_obj_size a')" by (auto simp: has_space_def)
      next
        fix q assume "q \<in> has_space s (a_obj_size a')"
        then obtain n where n: "nodes s q = Some n" "n_obj_size n = ucast (a_obj_size a')"
          "n_avail n \<noteq> TABLE_END" by (auto simp: has_space_def)
        with keep [OF n(1)] ne64 have "nodes s' q = Some n" by auto
        with n show "q \<in> has_space s' (a_obj_size a')" by (auto simp: has_space_def)
      qed
      from ok obtain ps where ps: "nlist (nodes s) (a_list a') ps" "distinct ps"
        "set ps = has_space s (a_obj_size a')" by (auto simp: alloc_ok_def)
      have "nlist (nodes s') (a_list a') ps"
      proof (rule nlist_cong [OF ps(1)])
        fix q assume "q \<in> set ps"
        with ps(3) obtain n where n: "nodes s q = Some n" "n_obj_size n = ucast (a_obj_size a')"
          by (auto simp: has_space_def)
        with keep [OF n(1)] ne64 have "nodes s' q = Some n" by auto
        with n show "map_option n_next (nodes s' q) = map_option n_next (nodes s q)" by simp
      qed
      with ps hs ok hb show ?thesis by (auto simp: alloc_ok_def)
    qed
    from ch rs(2) inj ok show ?thesis unfolding bucket_ok_def by blast
  qed
  have adam: "alloc_for s' (unat (ROUNDUP16 K)) Adam"
    using inv by (intro af) (simp add: slab_inv0_def)
  have n': "\<forall>p n. nodes s' p = Some n \<longrightarrow>
        page_ok p \<and> node_ok p n \<and> (\<exists>r. alloc_for s' (unat (n_obj_size n)) r)"
    using nodes' by blast
  have b': "\<forall>b<17. bucket_ok s' b" using buckets by blast
  have l': "dom (allocators s') \<subseteq> live s'" using lv dm by simp
  show ?thesis
    unfolding slab_inv0_def
    by (intro conjI fin fl n' b' adam l')
qed

subsection \<open>The objects of a node\<close>

lemma objects_shape:
  assumes "node_shape p n c xs"
  shows "objects n = {p + of_nat (region c + i * c) | i. i < capa c \<and> i \<notin> set xs}"
proof -
  from assms have f: "free_slots n = set xs" and l: "length (n_table n) = capa c"
    and a: "n_obj_addr n = p + of_nat (region c)" and z: "n_obj_size n = of_nat c"
    by (simp_all add: node_shape_def free_slots_chain)
  show ?thesis unfolding objects_def f l a z obj_addr_word ..
qed

lemma shape_free_bound: "node_shape p n c xs \<Longrightarrow> x \<in> set xs \<Longrightarrow> x < capa c"
  by (auto simp: node_shape_def dest: chain_bound)

lemma object_facts:
  assumes sh: "node_shape p n c xs" and pg: "page_ok p" and i: "i < capa c"
  shows "PGROUNDDOWN (p + of_nat (region c + i * c)) = p"
    "p + of_nat (region c + i * c) \<noteq> NULL"
    "(p + of_nat (region c + i * c)) AND 15 = 0"
    "in_region n (p + of_nat (region c + i * c))"
proof -
  from sh have c: "class_ok c" by (simp add: node_shape_def)
  note o = obj_offset [OF c i]
  show "PGROUNDDOWN (p + of_nat (region c + i * c)) = p" by (rule PGROUNDDOWN_page_off [OF pg o(1)])
  show "p + of_nat (region c + i * c) \<noteq> NULL" by (rule page_off_nonzero [OF pg o(1)])
  have "16 dvd c" using c by (simp add: class_ok_def)
  then have "16 dvd region c + i * c" using region_dvd by (simp add: dvd_add)
  then show "(p + of_nat (region c + i * c)) AND 15 = 0" by (rule page_off_aligned16 [OF pg o(1)])
  have r: "region c < 4096" using o(1) by simp
  have "unat (n_obj_addr n) = unat p + region c"
    using sh unat_page_off [OF pg r] by (simp add: node_shape_def)
  moreover have "unat (p + of_nat (region c + i * c)) = unat p + (region c + i * c)"
    by (rule unat_page_off [OF pg o(1)])
  moreover have "unat (n_obj_size n) = c"
    using sh c by (simp add: node_shape_def unat_of_nat64 class_ok_def)
  moreover have "i * c < capa c * c" using i c by (simp add: class_ok_def)
  ultimately show "in_region n (p + of_nat (region c + i * c))"
    using sh by (simp add: in_region_def node_shape_def)
qed

lemma in_region_page:
  assumes sh: "node_shape p n c xs" and pg: "page_ok p" and r: "in_region n a"
  shows "PGROUNDDOWN a = p"
proof -
  from sh have c: "class_ok c" by (simp add: node_shape_def)
  have rg: "region c < 4096" using region_fits [OF c] capa_bounds [OF c] c
    by (metis add_lessD1 le_neq_implies_less less_add_same_cancel1 mult_pos_pos class_ok_def
        less_le_trans zero_less_numeral zero_less_one not_le)
  have a1: "unat (n_obj_addr n) = unat p + region c"
    using sh unat_page_off [OF pg rg] by (simp add: node_shape_def)
  have a2: "unat (n_obj_size n) = c"
    using sh c by (simp add: node_shape_def unat_of_nat64 class_ok_def)
  from r a1 a2 sh have lo: "unat p + region c \<le> unat a" and hi: "unat a < unat p + region c + capa c * c"
    by (simp_all add: in_region_def node_shape_def)
  with region_fits [OF c] have "unat p \<le> unat a" "unat a < unat p + 4096" by simp_all
  moreover note u = page_ok_unat [OF pg]
  ultimately have "unat a div 4096 * 4096 = unat p"
    by (auto simp: mod_eq_0_iff_dvd dvd_def)
  then show ?thesis by (simp add: word_unat_eq_iff unat_PGROUNDDOWN)
qed

lemma objects_page:
  assumes "node_shape p n c xs" "page_ok p" "a \<in> objects n"
  shows "PGROUNDDOWN a = p \<and> a \<noteq> NULL \<and> a AND 15 = 0 \<and> in_region n a"
  using assms object_facts [OF assms(1,2)]
  by (auto simp: objects_shape [OF assms(1)])

lemma node_ok_shape: "node_ok p n \<Longrightarrow> \<exists>c xs. node_shape p n c xs"
  by (auto simp: node_ok_def)

subsection \<open>Taking a slot from a node\<close>

lemma ucast_8_64: "(ucast (a :: 8 word) :: 64 word) = of_nat (unat a)"
  by (simp add: word_unat_eq_iff unsigned_ucast_eq take_bit_nat_eq_self
      unat_of_nat64 [OF less_trans [OF unsigned_less]]
      less_trans [OF unsigned_less [of a, where 'a = nat]])

lemma node_take:
  assumes sh: "node_shape p n c (x # xs)" and pg: "page_ok p"
  defines "n' \<equiv> n\<lparr>n_cnt := n_cnt n + 1, n_avail := n_table n ! unat (n_avail n)\<rparr>"
  shows "unat (n_avail n) < length (n_table n)"
    "n_obj_addr n + ucast (n_avail n) * n_obj_size n = p + of_nat (region c + x * c)"
    "node_shape p n' c xs" "node_ok p n'"
    "objects n' = insert (p + of_nat (region c + x * c)) (objects n)"
    "p + of_nat (region c + x * c) \<notin> objects n"
    "n_avail n' = TABLE_END \<longleftrightarrow> xs = []"
    "n_avail n \<noteq> TABLE_END"
proof -
  from sh have c: "class_ok c" and ch: "chain (n_table n) (n_avail n) (x # xs)"
    and d: "distinct (x # xs)" and cnt: "unat (n_cnt n) + length (x # xs) = capa c"
    and len: "length (n_table n) = capa c"
    and oa: "n_obj_addr n = p + of_nat (region c)" and os: "n_obj_size n = of_nat c"
    by (auto simp: node_shape_def)
  from ch have x: "x = unat (n_avail n)" "x < length (n_table n)" "n_avail n \<noteq> TABLE_END"
    and ch': "chain (n_table n) (n_table n ! x) xs" by auto
  show "unat (n_avail n) < length (n_table n)" using x by simp
  show "n_avail n \<noteq> TABLE_END" by (rule x(3))
  show ad: "n_obj_addr n + ucast (n_avail n) * n_obj_size n = p + of_nat (region c + x * c)"
    unfolding oa os ucast_8_64 x(1) [symmetric] by (rule obj_addr_word)
  from cnt capa_bounds [OF c] have "unat (n_cnt n) + 1 < 256" by simp
  then have u: "unat (n_cnt n + 1) = unat (n_cnt n) + 1" by (rule unat_succ8)
  show sh': "node_shape p n' c xs"
    using c ch' d cnt len oa os u x by (simp add: node_shape_def n'_def)
  from cnt have "length xs < capa c" by simp
  with sh' show "node_ok p n'" unfolding node_ok_def by blast
  have xb: "x < capa c" using x len by simp
  show "objects n' = insert (p + of_nat (region c + x * c)) (objects n)"
    unfolding objects_shape [OF sh] objects_shape [OF sh'] using xb d by auto
  show "p + of_nat (region c + x * c) \<notin> objects n"
  proof
    assume "p + of_nat (region c + x * c) \<in> objects n"
    then obtain i where i: "i < capa c" "i \<noteq> x" "p + of_nat (region c + i * c) = p + of_nat (region c + x * c)"
      unfolding objects_shape [OF sh] by auto
    from page_off_inj [OF pg pg obj_offset(1) [OF c i(1)] obj_offset(1) [OF c xb] i(3)]
    have "i * c = x * c" by simp
    with c i(2) show False by (simp add: class_ok_def)
  qed
  show "n_avail n' = TABLE_END \<longleftrightarrow> xs = []"
    using ch' x by (simp add: n'_def chain_empty_iff)
qed

subsection \<open>Facts drawn from the invariant\<close>

lemma inv_node:
  "slab_inv0 K s \<Longrightarrow> nodes s p = Some n \<Longrightarrow> page_ok p \<and> node_ok p n"
  by (simp add: slab_inv0_def)

lemma inv_bucket: "slab_inv0 K s \<Longrightarrow> bucket_ok s (c mod 17)"
  by (simp add: slab_inv0_def)

lemma inv_alloc_ok:
  assumes "slab_inv0 K s" "alloc_for s c r" "alloc_at s r = Some A"
  shows "alloc_ok s A" "unat (a_obj_size A) = c"
proof -
  from assms(2,3) obtain rs where rs: "achain s (kmem_table s (c mod 17)) rs" "r \<in> set rs"
    and c: "unat (a_obj_size A) = c"
    by (auto simp: alloc_for_def)
  from inv_bucket [OF assms(1), of c] obtain rs' where rs': "achain s (kmem_table s (c mod 17)) rs'"
    "\<forall>r \<in> set rs'. \<forall>a. alloc_at s r = Some a \<longrightarrow> alloc_ok s a \<and> unat (a_obj_size a) mod 17 = c mod 17"
    by (auto simp: bucket_ok_def)
  from achain_unique [OF rs(1) rs'(1)] rs(2) rs'(2) assms(3) show "alloc_ok s A" by auto
  show "unat (a_obj_size A) = c" by (rule c)
qed

lemma live_page:
  assumes "slab_inv0 K s" "a \<in> live s"
  shows "\<exists>n. nodes s (PGROUNDDOWN a) = Some n \<and> a \<in> objects n"
proof -
  from assms(2) obtain p n where n: "nodes s p = Some n" "a \<in> objects n" by (auto simp: live_def)
  from inv_node [OF assms(1) n(1)] obtain c xs where "page_ok p" "node_shape p n c xs"
    by (auto simp: node_ok_def)
  from objects_page [OF this(2,1) n(2)] n show ?thesis by auto
qed

lemma live_node_upd:
  assumes inv: "slab_inv0 K s" and n': "nodes s' = (nodes s)(p \<mapsto> n')"
    and old: "\<And>n. nodes s p = Some n \<Longrightarrow> objects n \<subseteq> objects n'"
    and pg: "\<And>a. a \<in> objects n' \<Longrightarrow> PGROUNDDOWN a = p"
  shows "live s' = live s \<union> objects n'"
    "\<And>a. a \<in> objects n' \<Longrightarrow> (\<And>n. nodes s p = Some n \<Longrightarrow> a \<notin> objects n) \<Longrightarrow> a \<notin> live s"
proof -
  show "live s' = live s \<union> objects n'"
  proof (intro set_eqI iffI)
    fix a assume "a \<in> live s'"
    then obtain q m where m: "nodes s' q = Some m" "a \<in> objects m" by (auto simp: live_def)
    show "a \<in> live s \<union> objects n'"
    proof (cases "q = p")
      case True
      with m n' show ?thesis by simp
    next
      case False
      with m n' show ?thesis by (auto simp: live_def)
    qed
  next
    fix a assume a: "a \<in> live s \<union> objects n'"
    show "a \<in> live s'"
    proof (cases "a \<in> objects n'")
      case True
      with n' show ?thesis by (auto simp: live_def)
    next
      case False
      with a obtain q m where m: "nodes s q = Some m" "a \<in> objects m" by (auto simp: live_def)
      with old False have "q \<noteq> p" by auto
      with m n' show ?thesis by (auto simp: live_def)
    qed
  qed
  fix a assume a: "a \<in> objects n'" and no: "\<And>n. nodes s p = Some n \<Longrightarrow> a \<notin> objects n"
  show "a \<notin> live s"
  proof
    assume "a \<in> live s"
    from live_page [OF inv this] pg [OF a] no show False by auto
  qed
qed

lemma has_space_head:
  assumes "slab_inv0 K s" "alloc_for s c r" "alloc_at s r = Some A" "a_list A \<noteq> NULL"
  shows "\<exists>n ps x xs. nodes s (a_list A) = Some n \<and> node_shape (a_list A) n c (x # xs) \<and>
           page_ok (a_list A) \<and> nlist (nodes s) (n_next n) ps \<and> a_list A \<notin> set ps \<and>
           distinct ps \<and> has_space s (a_obj_size A) = insert (a_list A) (set ps)"
proof -
  note ok = inv_alloc_ok [OF assms(1,2,3)]
  from ok(1) obtain ps0 where ps0: "nlist (nodes s) (a_list A) ps0" "distinct ps0"
    "set ps0 = has_space s (a_obj_size A)" by (auto simp: alloc_ok_def)
  from ps0(1) assms(4) obtain ps where e: "ps0 = a_list A # ps" by (cases ps0) auto
  with ps0 obtain n where n: "nodes s (a_list A) = Some n" "nlist (nodes s) (n_next n) ps"
    by (auto split: option.splits)
  have "a_list A \<in> has_space s (a_obj_size A)" using ps0(3) e by auto
  with n have hs: "n_obj_size n = ucast (a_obj_size A)" "n_avail n \<noteq> TABLE_END"
    by (auto simp: has_space_def)
  from inv_node [OF assms(1) n(1)] obtain c' xs' where sh: "node_shape (a_list A) n c' xs'"
    and pg: "page_ok (a_list A)" by (auto simp: node_ok_def)
  have "unat (n_obj_size n) = c" using hs ok by (simp add: unat_ucast_32_64)
  moreover have "unat (n_obj_size n) = c'"
    using sh by (simp add: node_shape_def unat_of_nat64 class_ok_def)
  ultimately have cc: "c' = c" by simp
  from sh hs(2) obtain x xs where "xs' = x # xs"
    by (cases xs') (auto simp: node_shape_def)
  with sh cc pg n e ps0 show ?thesis by auto
qed

subsection \<open>kmalloc from an allocator with a node that has room\<close>

lemma alloc_at_upd_fun:
  "alloc_at s r = Some A \<Longrightarrow> alloc_at (alloc_upd r f s) = (alloc_at s)(r \<mapsto> f A)"
  by (auto simp: fun_eq_iff)

lemma kmalloc_from_take:
  assumes inv: "slab_inv0 K s" and reg: "alloc_for s c r" and A: "alloc_at s r = Some A"
    and ne: "a_list A \<noteq> NULL"
  shows "\<exists>n x xs s' A'. nodes s (a_list A) = Some n \<and> node_shape (a_list A) n c (x # xs) \<and>
      kmalloc_from r sz s = Inr (a_list A + of_nat (region c + x * c), s') \<and>
      slab_inv0 K s' \<and>
      nodes s' = (nodes s)(a_list A \<mapsto> n\<lparr>n_cnt := n_cnt n + 1, n_avail := n_table n ! x\<rparr>) \<and>
      freelist s' = freelist s \<and> kmem_table s' = kmem_table s \<and>
      kmem_table_lock s' = kmem_table_lock s \<and> dom (allocators s') = dom (allocators s) \<and>
      mem s' = mem s \<and>
      a_list A + of_nat (region c + x * c) \<notin> live s \<and>
      live s' = insert (a_list A + of_nat (region c + x * c)) (live s) \<and>
      alloc_at s' = (alloc_at s)(r \<mapsto> A') \<and> a_obj_size A' = a_obj_size A \<and>
      a_next A' = a_next A \<and> a_list A' = (if xs = [] then n_next n else a_list A)"
proof -
  define p where "p = a_list A"
  note ok = inv_alloc_ok [OF inv reg A]
  from ok(1) have ul: "\<not> a_lock A" by (simp add: alloc_ok_def)
  from has_space_head [OF inv reg A ne] obtain n ps x xs where
    n: "nodes s p = Some n" and sh: "node_shape p n c (x # xs)" and pg: "page_ok p"
    and ps: "nlist (nodes s) (n_next n) ps" "p \<notin> set ps" "distinct ps"
    and hs: "has_space s (a_obj_size A) = insert p (set ps)"
    unfolding p_def by blast
  note t = node_take [OF sh pg]
  define n' where "n' = n\<lparr>n_cnt := n_cnt n + 1, n_avail := n_table n ! unat (n_avail n)\<rparr>"
  define a where "a = p + of_nat (region c + x * c)"
  from sh have x: "x = unat (n_avail n)" by (simp add: node_shape_def)
  define s1 where "s1 = alloc_upd r (\<lambda>a. a\<lparr>a_lock := True\<rparr>) s"
  have A1: "alloc_at s1 r = Some (A\<lparr>a_lock := True\<rparr>)" using A by (simp add: s1_def)
  have n1: "nodes s1 p = Some n" using n by (simp add: s1_def)
  have e: "kmalloc_from r sz s = kmalloc_take r s1"
    using A ul ne by (simp add: kmalloc_from_def acquire_def s1_def)
  from kmalloc_take_run [OF A1 _ n1 t(1)] obtain s' where
    s': "kmalloc_take r s1 = Inr (n_obj_addr n + ucast (n_avail n) * n_obj_size n, s')"
    and nd: "nodes s' = (nodes s1)(p \<mapsto> n')"
    and at: "alloc_at s' = (alloc_at s1)(r \<mapsto> A\<lparr>a_lock := True, a_nobjs := a_nobjs A + 1,
          a_list := (if TABLE_END = n_table n ! unat (n_avail n) then n_next n else p),
          a_lock := False\<rparr>)"
    and fr: "freelist s' = freelist s1" "kmem_table s' = kmem_table s1"
      "kmem_table_lock s' = kmem_table_lock s1" "dom (allocators s') = dom (allocators s1)"
      "mem s' = mem s1"
    by (auto simp: p_def n'_def)
  define A' where "A' = A\<lparr>a_lock := True, a_nobjs := a_nobjs A + 1,
          a_list := (if TABLE_END = n_table n ! unat (n_avail n) then n_next n else p),
          a_lock := False\<rparr>"
  have at': "alloc_at s' = (alloc_at s)(r \<mapsto> A')"
    using at A by (simp add: s1_def alloc_at_upd_fun A'_def)
  have nd': "nodes s' = (nodes s)(p \<mapsto> n')" using nd by (simp add: s1_def)
  have fr': "freelist s' = freelist s" "kmem_table s' = kmem_table s"
      "kmem_table_lock s' = kmem_table_lock s" "dom (allocators s') = dom (allocators s)"
      "mem s' = mem s"
    using fr by (simp_all add: s1_def)
  have full: "TABLE_END = n_table n ! unat (n_avail n) \<longleftrightarrow> xs = []"
    using t(7) by (auto simp: n'_def)
  have la: "a_list A' = (if xs = [] then n_next n else p)" by (simp add: A'_def full)
  have csz: "n_obj_size n = ucast (a_obj_size A)"
    using sh ok(2) by (simp add: node_shape_def ucast_class)
  have obj: "objects n' = insert a (objects n)" "a \<notin> objects n"
    using t(5,6) by (simp_all add: n'_def a_def)
  have sh': "node_shape p n' c xs" "node_ok p n'" using t(3,4) by (simp_all add: n'_def)
  have pga: "\<And>b. b \<in> objects n' \<Longrightarrow> PGROUNDDOWN b = p"
    using objects_page [OF sh'(1) pg] by simp
  have old: "\<And>m. nodes s p = Some m \<Longrightarrow> objects m \<subseteq> objects n'"
    using n obj by auto
  note l = live_node_upd [OF inv nd' old pga]
  have lv: "live s' = live s \<union> objects n'" by (rule l(1))
  have nl: "a \<notin> live s" by (rule l(2)) (use n obj in auto)
  have lv': "live s' = insert a (live s)"
    using lv obj n by (auto simp: live_def)
  have fl: "\<forall>q \<in> set (freelist s'). page_ok q \<and> nodes s' q = None"
  proof
    fix q assume "q \<in> set (freelist s')"
    with inv fr' have q: "page_ok q" "nodes s q = None" by (simp_all add: slab_inv0_def)
    with n have "q \<noteq> p" by auto
    with q nd' show "page_ok q \<and> nodes s' q = None" by simp
  qed
  have hs': "has_space s' (a_obj_size A) = (if xs = [] then set ps else insert p (set ps))"
  proof -
    have "has_space s' (a_obj_size A) =
          (has_space s (a_obj_size A) - {p}) \<union> (if n_avail n' \<noteq> TABLE_END then {p} else {})"
      using csz by (auto simp: has_space_def nd' n'_def)
    with hs ps(2) t(7) show ?thesis by (auto simp: n'_def)
  qed
  have tl: "nlist (nodes s') (n_next n) ps"
    by (rule nlist_cong [OF ps(1)]) (use ps(2) nd' in auto)
  have lst: "\<exists>ps'. nlist (nodes s') (a_list A') ps' \<and> distinct ps' \<and>
                 set ps' = has_space s' (a_obj_size A)"
  proof (cases "xs = []")
    case True
    with tl ps(3) hs' la show ?thesis by auto
  next
    case False
    have "nlist (nodes s') p (p # ps)" using tl nd' pg by (simp add: n'_def page_ok_def)
    with False ps hs' la show ?thesis by (intro exI [of _ "p # ps"]) simp
  qed
  have inv': "slab_inv0 K s'"
  proof (rule slab_inv0_update [OF inv A _ at'])
    show "alloc_for s (unat (a_obj_size A)) r" using reg ok(2) by simp
    show "a_obj_size A' = a_obj_size A" "a_next A' = a_next A" "\<not> a_lock A'"
      by (simp_all add: A'_def)
    show "kmem_table s' = kmem_table s" "dom (allocators s') = dom (allocators s)"
      by (rule fr')+
    show "finite (dom (nodes s'))" using inv by (simp add: nd' slab_inv0_def)
    show "distinct (freelist s')" using inv fr' by (simp add: slab_inv0_def)
    show "\<forall>q \<in> set (freelist s'). page_ok q \<and> nodes s' q = None" by (rule fl)
    show "\<And>q m. nodes s q = Some m \<Longrightarrow> n_obj_size m \<noteq> ucast (a_obj_size A) \<Longrightarrow> nodes s' q = Some m"
      using n csz by (auto simp: nd')
    show "\<And>q m. nodes s' q = Some m \<Longrightarrow>
           nodes s q = Some m \<or> (n_obj_size m = ucast (a_obj_size A) \<and> node_ok q m \<and> page_ok q)"
      using sh'(2) pg csz by (auto simp: nd' n'_def split: if_splits)
    show "\<exists>ps. nlist (nodes s') (a_list A') ps \<and> distinct ps \<and> set ps = has_space s' (a_obj_size A)"
      by (rule lst)
    show "dom (allocators s) \<subseteq> live s'" using inv lv' by (auto simp: slab_inv0_def)
  qed
  have ret: "n_obj_addr n + ucast (n_avail n) * n_obj_size n = a" using t(2) by (simp add: a_def)
  show ?thesis
    apply (rule exI [of _ n], rule exI [of _ x], rule exI [of _ xs], rule exI [of _ s'], rule exI [of _ A'])
    unfolding p_def [symmetric] a_def [symmetric]
    using n sh e s' ret inv' nd' fr' nl lv' at' la
    by (simp add: n'_def A'_def x [symmetric])
qed

subsection \<open>kmalloc from an allocator with an empty list\<close>

lemma format_node_roundup:
  assumes c: "class_ok c" and sz: "ROUNDUP16 (sz :: 32 word) = of_nat c"
  shows "format_node p sz = format_node p (of_nat c)"
proof -
  from c have "c \<le> 4048" by (simp add: class_ok_def)
  then have "unat (of_nat c :: 32 word) = c" by (intro unat_of_nat32) simp
  with \<open>c \<le> 4048\<close> have "ROUNDUP16 (of_nat c :: 32 word) = of_nat c"
    by (simp add: ROUNDUP16_32 class_ok_fix [OF c])
  with sz show ?thesis by (simp add: format_node_def)
qed

lemma alloc_upd_relock:
  assumes "alloc_at s r = Some A" "\<not> a_lock A"
  shows "alloc_upd r (\<lambda>a. a\<lparr>a_lock := release (a_lock a)\<rparr>) (alloc_upd r (\<lambda>a. a\<lparr>a_lock := True\<rparr>) s) = s"
proof -
  from assms(2) have "A\<lparr>a_lock := False\<rparr> = A" by simp
  with assms(1) show ?thesis
    by (cases r) (auto simp: alloc_upd_def alloc_at_def release_def map_upd_triv
        split: option.splits)
qed

lemma kmalloc_from_nopage:
  assumes inv: "slab_inv0 K s" and reg: "alloc_for s c r" and A: "alloc_at s r = Some A"
    and emp: "a_list A = NULL" and fl: "freelist s = []"
  shows "kmalloc_from r sz s = Inr (NULL, s)"
proof -
  from inv_alloc_ok [OF inv reg A] have ul: "\<not> a_lock A" by (simp add: alloc_ok_def)
  show ?thesis
    using A ul emp fl alloc_upd_relock [OF A ul]
    by (simp add: kmalloc_from_def acquire_def allocpage_def)
qed

lemma upt_capa: "class_ok c \<Longrightarrow> [0 ..< capa c] = 0 # [1 ..< capa c]"
  using capa_bounds [of c] by (simp add: upt_conv_Cons)

lemma kmalloc_from_fresh:
  assumes inv: "slab_inv0 K s" and reg: "alloc_for s c r" and A: "alloc_at s r = Some A"
    and emp: "a_list A = NULL" and fl: "freelist s = q # qs"
    and sz: "ROUNDUP16 (sz :: 32 word) = of_nat c"
  shows "\<exists>n' s' A'. node_shape q n' c [1 ..< capa c] \<and> n_cnt n' = 1 \<and>
      kmalloc_from r sz s = Inr (q + of_nat (region c), s') \<and>
      slab_inv0 K s' \<and>
      nodes s' = (nodes s)(q \<mapsto> n') \<and> nodes s q = None \<and> page_ok q \<and>
      freelist s' = qs \<and> kmem_table s' = kmem_table s \<and>
      kmem_table_lock s' = kmem_table_lock s \<and> dom (allocators s') = dom (allocators s) \<and>
      mem s' = mem s \<and>
      q + of_nat (region c) \<notin> live s \<and>
      live s' = insert (q + of_nat (region c)) (live s) \<and>
      alloc_at s' = (alloc_at s)(r \<mapsto> A') \<and> a_obj_size A' = a_obj_size A \<and>
      a_next A' = a_next A \<and> a_list A' = (if [1 ..< capa c] = [] then NULL else q)"
proof -
  note ok = inv_alloc_ok [OF inv reg A]
  from ok have ul: "\<not> a_lock A" and c: "class_ok c" by (auto simp: alloc_ok_def)
  from ok(1) emp have hs: "has_space s (a_obj_size A) = {}" by (auto simp: alloc_ok_def)
  from inv fl have pg: "page_ok q" and fr: "nodes s q = None" and qq: "q \<notin> set qs" "distinct qs"
    by (auto simp: slab_inv0_def)
  from pg have q0: "q \<noteq> NULL" by (simp add: page_ok_def)
  from format_node_class [OF c, of q] obtain T where
    fm: "format_node q (of_nat c) = Inr \<lparr>n_next = NULL, n_obj_size = of_nat c,
           n_obj_addr = q + of_nat (region c), n_avail = 0, n_cnt = 0, n_table = T\<rparr>"
    and T: "length T = capa c" "chain T 0 [0 ..< capa c]" by blast
  define n0 where "n0 = \<lparr>n_next = NULL, n_obj_size = of_nat c,
           n_obj_addr = q + of_nat (region c), n_avail = 0, n_cnt = 0, n_table = T\<rparr>"
  have "node_shape q n0 c [0 ..< capa c]"
    using c T by (simp add: node_shape_def n0_def)
  then have sh0: "node_shape q n0 c (0 # [1 ..< capa c])"
    by (simp only: upt_capa [OF c])
  note t = node_take [OF sh0 pg]
  define n' where "n' = n0\<lparr>n_cnt := n_cnt n0 + 1, n_avail := n_table n0 ! unat (n_avail n0)\<rparr>"
  define a where "a = q + of_nat (region c)"
  have ob0: "objects n0 = {}"
    using objects_shape [OF sh0] by (auto simp: upt_capa [OF c, symmetric])
  define s3 where "s3 = alloc_upd r (\<lambda>a. a\<lparr>a_npages := a_npages a + 1, a_list := q\<rparr>)
     ((alloc_upd r (\<lambda>a. a\<lparr>a_lock := True\<rparr>) s)\<lparr>freelist := qs, nodes := (nodes s)(q \<mapsto> n0)\<rparr>)"
  define A3 where "A3 = A\<lparr>a_lock := True, a_npages := a_npages A + 1, a_list := q\<rparr>"
  have A3: "alloc_at s3 r = Some A3" using A by (simp add: s3_def A3_def)
  have n3: "nodes s3 q = Some n0" by (simp add: s3_def)
  have e: "kmalloc_from r sz s = kmalloc_take r s3"
    using A ul emp fl q0 fm
    by (simp add: kmalloc_from_def acquire_def allocpage_def format_node_roundup [OF c sz]
        n0_def s3_def)
  have l3: "a_list A3 = q" by (simp add: A3_def)
  from kmalloc_take_run [OF A3 l3 n3 t(1)] obtain s' where
    s': "kmalloc_take r s3 = Inr (n_obj_addr n0 + ucast (n_avail n0) * n_obj_size n0, s')"
    and nd: "nodes s' = (nodes s3)(q \<mapsto> n')"
    and at: "alloc_at s' = (alloc_at s3)(r \<mapsto> A3\<lparr>a_nobjs := a_nobjs A3 + 1,
          a_list := (if TABLE_END = n_table n0 ! unat (n_avail n0) then n_next n0 else q),
          a_lock := False\<rparr>)"
    and fr3: "freelist s' = freelist s3" "kmem_table s' = kmem_table s3"
      "kmem_table_lock s' = kmem_table_lock s3" "dom (allocators s') = dom (allocators s3)"
      "mem s' = mem s3"
    by (auto simp: n'_def)
  define A' where "A' = A3\<lparr>a_nobjs := a_nobjs A3 + 1,
          a_list := (if TABLE_END = n_table n0 ! unat (n_avail n0) then n_next n0 else q),
          a_lock := False\<rparr>"
  have at3: "alloc_at s3 = (alloc_at s)(r \<mapsto> A3)"
    using A by (auto simp: s3_def A3_def fun_eq_iff)
  have at': "alloc_at s' = (alloc_at s)(r \<mapsto> A')"
    using at by (simp add: at3 A'_def)
  have nd': "nodes s' = (nodes s)(q \<mapsto> n')" using nd by (simp add: s3_def)
  have fr': "freelist s' = qs" "kmem_table s' = kmem_table s"
      "kmem_table_lock s' = kmem_table_lock s" "dom (allocators s') = dom (allocators s)"
      "mem s' = mem s"
    using fr3 by (simp_all add: s3_def)
  have full: "TABLE_END = n_table n0 ! unat (n_avail n0) \<longleftrightarrow> [1 ..< capa c] = []"
    using t(7) by (auto simp: n'_def)
  have la: "a_list A' = (if [1 ..< capa c] = [] then NULL else q)"
    by (simp add: A'_def full) (simp add: n0_def)
  have csz: "n_obj_size n' = ucast (a_obj_size A)"
    using ok(2) by (simp add: n'_def n0_def ucast_class)
  have obj: "objects n' = {a}"
    using t(5) ob0 by (simp add: n'_def a_def)
  have sh': "node_shape q n' c [1 ..< capa c]" "node_ok q n'" using t(3,4) by (simp_all add: n'_def)
  have cnt: "n_cnt n' = 1" by (simp add: n'_def n0_def)
  have pga: "\<And>b. b \<in> objects n' \<Longrightarrow> PGROUNDDOWN b = q"
    using objects_page [OF sh'(1) pg] by simp
  have old: "\<And>m. nodes s q = Some m \<Longrightarrow> objects m \<subseteq> objects n'" using fr by simp
  note l = live_node_upd [OF inv nd' old pga]
  have nl: "a \<notin> live s" by (rule l(2)) (use fr obj in auto)
  have lv': "live s' = insert a (live s)" using l(1) obj by simp
  have fl': "\<forall>p \<in> set (freelist s'). page_ok p \<and> nodes s' p = None"
  proof
    fix p assume p: "p \<in> set (freelist s')"
    with inv fr' fl have "page_ok p" "nodes s p = None" by (simp_all add: slab_inv0_def)
    moreover from p qq fr' have "p \<noteq> q" by auto
    ultimately show "page_ok p \<and> nodes s' p = None" using nd' by simp
  qed
  have hs': "has_space s' (a_obj_size A) = (if [1 ..< capa c] = [] then {} else {q})"
  proof -
    have "has_space s' (a_obj_size A) =
          (has_space s (a_obj_size A) - {q}) \<union> (if n_avail n' \<noteq> TABLE_END then {q} else {})"
      using csz by (auto simp: has_space_def nd')
    with hs t(7) show ?thesis by (auto simp: n'_def)
  qed
  have nx: "n_next n' = NULL" by (simp add: n'_def n0_def)
  have lst: "\<exists>ps'. nlist (nodes s') (a_list A') ps' \<and> distinct ps' \<and>
                 set ps' = has_space s' (a_obj_size A)"
  proof (cases "[1 ..< capa c] = []")
    case True
    with hs' la show ?thesis by auto
  next
    case False
    have "nlist (nodes s') q [q]" using nd' q0 nx by simp
    with False hs' la show ?thesis by (intro exI [of _ "[q]"]) simp
  qed
  have inv': "slab_inv0 K s'"
  proof (rule slab_inv0_update [OF inv A _ at'])
    show "alloc_for s (unat (a_obj_size A)) r" using reg ok(2) by simp
    show "a_obj_size A' = a_obj_size A" "a_next A' = a_next A" "\<not> a_lock A'"
      by (simp_all add: A'_def A3_def)
    show "kmem_table s' = kmem_table s" "dom (allocators s') = dom (allocators s)"
      by (rule fr')+
    show "finite (dom (nodes s'))" using inv by (simp add: nd' slab_inv0_def)
    show "distinct (freelist s')" using qq fr' by simp
    show "\<forall>p \<in> set (freelist s'). page_ok p \<and> nodes s' p = None" by (rule fl')
    show "\<And>p m. nodes s p = Some m \<Longrightarrow> n_obj_size m \<noteq> ucast (a_obj_size A) \<Longrightarrow> nodes s' p = Some m"
      using fr by (auto simp: nd')
    show "\<And>p m. nodes s' p = Some m \<Longrightarrow>
           nodes s p = Some m \<or> (n_obj_size m = ucast (a_obj_size A) \<and> node_ok p m \<and> page_ok p)"
      using sh'(2) pg csz by (auto simp: nd' split: if_splits)
    show "\<exists>ps. nlist (nodes s') (a_list A') ps \<and> distinct ps \<and> set ps = has_space s' (a_obj_size A)"
      by (rule lst)
    show "dom (allocators s) \<subseteq> live s'" using inv lv' by (auto simp: slab_inv0_def)
  qed
  have ret: "n_obj_addr n0 + ucast (n_avail n0) * n_obj_size n0 = a"
    using t(2) by (simp add: a_def)
  show ?thesis
    apply (rule exI [of _ n'], rule exI [of _ s'], rule exI [of _ A'])
    unfolding a_def [symmetric]
    using sh'(1) cnt e s' ret inv' nd' fr pg fr' nl lv' at' la
    by (simp add: A'_def A3_def)
qed

subsection \<open>States with the same allocator data\<close>

lemma slab_inv0_cong:
  assumes inv: "slab_inv0 K s"
    and e: "nodes s' = nodes s" "freelist s' = freelist s" "alloc_at s' = alloc_at s"
      "kmem_table s' = kmem_table s" "dom (allocators s') = dom (allocators s)"
  shows "slab_inv0 K s'"
proof -
  have A: "alloc_at s Adam = Some (kmem_adam s)" by (simp add: alloc_at_def)
  from inv have reg: "alloc_for s (unat (ROUNDUP16 K)) Adam" by (simp add: slab_inv0_def)
  note ok = inv_alloc_ok [OF inv reg A]
  have hs: "\<And>c. has_space s' c = has_space s c" by (simp add: has_space_def e)
  have lv: "live s' = live s" by (simp add: live_def e)
  show ?thesis
  proof (rule slab_inv0_update [OF inv A _ _ refl refl])
    show "alloc_for s (unat (a_obj_size (kmem_adam s))) Adam" using reg ok(2) by simp
    show "alloc_at s' = (alloc_at s)(Adam \<mapsto> kmem_adam s)" using A by (auto simp: e fun_eq_iff)
    show "\<not> a_lock (kmem_adam s)" using ok(1) by (simp add: alloc_ok_def)
    show "kmem_table s' = kmem_table s" "dom (allocators s') = dom (allocators s)" by (rule e)+
    show "finite (dom (nodes s'))" "distinct (freelist s')"
      "\<forall>p \<in> set (freelist s'). page_ok p \<and> nodes s' p = None"
      using inv by (simp_all add: e slab_inv0_def)
    show "\<exists>ps. nlist (nodes s') (a_list (kmem_adam s)) ps \<and> distinct ps \<and>
            set ps = has_space s' (a_obj_size (kmem_adam s))"
      using ok(1) by (simp add: alloc_ok_def hs e)
    show "dom (allocators s) \<subseteq> live s'" using inv by (simp add: lv slab_inv0_def)
  qed (simp_all add: e)
qed

lemma slab_inv0_lock [simp]: "slab_inv0 K (s\<lparr>kmem_table_lock := l\<rparr>) = slab_inv0 K s"
proof
  assume "slab_inv0 K (s\<lparr>kmem_table_lock := l\<rparr>)"
  then show "slab_inv0 K s" by (rule slab_inv0_cong) simp_all
next
  assume "slab_inv0 K s"
  then show "slab_inv0 K (s\<lparr>kmem_table_lock := l\<rparr>)" by (rule slab_inv0_cong) simp_all
qed

lemma slab_inv0_mem [simp]: "slab_inv0 K (s\<lparr>mem := m\<rparr>) = slab_inv0 K s"
proof
  assume "slab_inv0 K (s\<lparr>mem := m\<rparr>)"
  then show "slab_inv0 K s" by (rule slab_inv0_cong) (simp_all add: alloc_at_def fun_eq_iff)
next
  assume "slab_inv0 K s"
  then show "slab_inv0 K (s\<lparr>mem := m\<rparr>)" by (rule slab_inv0_cong) (simp_all add: alloc_at_def fun_eq_iff)
qed

lemma live_proj [simp]:
  "live (s\<lparr>kmem_table_lock := l\<rparr>) = live s" "live (s\<lparr>mem := m\<rparr>) = live s"
  "live (s\<lparr>kmem_table := t\<rparr>) = live s" "live (s\<lparr>allocators := al\<rparr>) = live s"
  "live (s\<lparr>freelist := fl\<rparr>) = live s" "live (alloc_upd r f s) = live s"
  "live (freepage p s) = live s"
  by (simp_all add: live_def)

lemma alloc_for_lock [simp]: "alloc_for (s\<lparr>kmem_table_lock := l\<rparr>) c r = alloc_for s c r"
proof
  assume "alloc_for (s\<lparr>kmem_table_lock := l\<rparr>) c r"
  then show "alloc_for s c r" by (rule alloc_for_keep) simp_all
next
  assume "alloc_for s c r"
  then show "alloc_for (s\<lparr>kmem_table_lock := l\<rparr>) c r" by (rule alloc_for_keep) simp_all
qed

subsection \<open>Registering a new allocator\<close>

lemma ucast_64_32_class: "c < 2 ^ 32 \<Longrightarrow> (ucast (of_nat c :: 64 word) :: 32 word) = of_nat c"
  by (simp add: word_unat_eq_iff unsigned_ucast_eq unat_of_nat32 unat_of_nat64 take_bit_nat_eq_self)

lemma slab_inv0_register:
  assumes inv: "slab_inv0 K s" and c: "class_ok c" and no: "\<And>r. \<not> alloc_for s c r"
    and tmp: "tmp \<in> live s" "tmp \<notin> dom (allocators s)"
  defines "s' \<equiv> register_allocator tmp (c mod 17) (of_nat c) s"
  shows "slab_inv0 K s'" "alloc_for s' c (AObj tmp)"
proof -
  define h where "h = c mod 17"
  define Anew where "Anew = \<lparr>a_lock = False, a_obj_size = (of_nat c :: 32 word), a_npages = 0,
      a_nobjs = 0, a_list = NULL, a_next = kmem_table s h\<rparr>"
  from c have c32: "c < 2 ^ 32" by (rule class_lt)
  have uc: "unat (of_nat c :: 32 word) = c" using c32 by (intro unat_of_nat32) simp
  have s': "s' = s\<lparr>allocators := (allocators s)(tmp \<mapsto> Anew), kmem_table := (kmem_table s)(h := AObj tmp)\<rparr>"
    by (simp add: s'_def register_allocator_def Anew_def h_def ucast_64_32_class [OF c32])
  have at: "\<And>x. alloc_at s' x = (if x = AObj tmp then Some Anew else alloc_at s x)"
    by (auto simp: s' alloc_at_def split: aref.splits)
  have nd: "nodes s' = nodes s" "freelist s' = freelist s" by (simp_all add: s')
  have tb: "kmem_table s' = (kmem_table s)(h := AObj tmp)" by (simp add: s')
  have old: "alloc_at s (AObj tmp) = None" using tmp(2) by (auto simp: alloc_at_def)
  have F1: "\<And>x a. alloc_at s x = Some a \<Longrightarrow> alloc_at s' x = Some a"
    using old by (auto simp: at)
  have F2: "achain s' r rs" if ch: "achain s r rs" for r rs
  proof (rule achain_cong [OF ch])
    fix x assume "x \<in> set rs"
    then obtain a where "alloc_at s x = Some a" using achain_dom [OF ch] by blast
    with F1 [OF this] show "map_option a_next (alloc_at s' x) = map_option a_next (alloc_at s x)"
      by simp
  qed
  have fresh: "AObj tmp \<notin> set rs" if "achain s r rs" for r rs
    using achain_dom [OF that, of "AObj tmp"] old by auto
  have new_chain: "achain s' (kmem_table s' h) (AObj tmp # rs)" if "achain s (kmem_table s h) rs" for rs
    using F2 [OF that] by (simp add: tb at Anew_def)
  have F3: "alloc_for s' c0 r" if "alloc_for s c0 r" for c0 r
  proof -
    from that obtain rs a where rs: "achain s (kmem_table s (c0 mod 17)) rs" "r \<in> set rs"
      "alloc_at s r = Some a" "unat (a_obj_size a) = c0"
      by (auto simp: alloc_for_def)
    show ?thesis
    proof (cases "c0 mod 17 = h")
      case True
      with new_chain [of rs] rs F1 [OF rs(3)] show ?thesis
        unfolding alloc_for_def by (intro exI [of _ "AObj tmp # rs"] exI [of _ a]) simp
    next
      case False
      with F2 [OF rs(1)] rs F1 [OF rs(3)] show ?thesis
        unfolding alloc_for_def by (intro exI [of _ rs] exI [of _ a]) (simp add: tb)
    qed
  qed
  from inv have bk: "\<And>b. b < 17 \<Longrightarrow> bucket_ok s b" by (simp add: slab_inv0_def)
  have hs: "\<And>z. has_space s' z = has_space s z" by (simp add: has_space_def nd)
  have aok: "\<And>a. alloc_ok s' a = alloc_ok s a" by (simp add: alloc_ok_def hs nd)
  have noclass: "n_obj_size n \<noteq> of_nat c" if "nodes s p = Some n" for p n
  proof
    assume e: "n_obj_size n = of_nat c"
    have u: "unat (of_nat c :: 64 word) = c" using c32 by (intro unat_of_nat64) simp
    from inv that have "\<exists>r. alloc_for s (unat (n_obj_size n)) r" by (simp add: slab_inv0_def)
    then have "\<exists>r. alloc_for s c r" by (simp only: e u)
    with no show False by simp
  qed
  have hnew: "has_space s (of_nat c) = {}"
    using noclass by (auto simp: has_space_def ucast_of_nat_32_64 [OF c32])
  have oknew: "alloc_ok s' Anew"
    using c hnew by (simp add: aok) (simp add: alloc_ok_def Anew_def uc)
  have buckets: "bucket_ok s' b" if b: "b < 17" for b
  proof -
    from bk [OF b] obtain rs where rs: "achain s (kmem_table s b) rs" "distinct rs"
      "inj_on (\<lambda>r. map_option a_obj_size (alloc_at s r)) (set rs)"
      "\<And>r a. r \<in> set rs \<Longrightarrow> alloc_at s r = Some a \<Longrightarrow> alloc_ok s a \<and> unat (a_obj_size a) mod 17 = b"
      by (auto simp: bucket_ok_def)
    note fr = fresh [OF rs(1)]
    have same: "\<And>x. x \<in> set rs \<Longrightarrow> alloc_at s' x = alloc_at s x" using fr by (auto simp: at)
    have inj: "inj_on (\<lambda>r. map_option a_obj_size (alloc_at s' r)) (set rs)"
      using rs(3) same by (auto simp: inj_on_def)
    have ok: "\<And>r a. r \<in> set rs \<Longrightarrow> alloc_at s' r = Some a \<Longrightarrow>
                alloc_ok s' a \<and> unat (a_obj_size a) mod 17 = b"
      using rs(4) same by (simp add: aok)
    show ?thesis
    proof (cases "b = h")
      case False
      have "achain s' (kmem_table s' b) rs" using F2 [OF rs(1)] False by (simp add: tb)
      with rs(2) inj ok show ?thesis unfolding bucket_ok_def by blast
    next
      case True
      have ch: "achain s' (kmem_table s' b) (AObj tmp # rs)"
        using new_chain [of rs] rs(1) True by simp
      have d: "distinct (AObj tmp # rs)" using rs(2) fr by simp
      have other: "map_option a_obj_size (alloc_at s' x) \<noteq> Some (of_nat c)" if x: "x \<in> set rs" for x
      proof
        assume e: "map_option a_obj_size (alloc_at s' x) = Some (of_nat c)"
        then obtain a where a: "alloc_at s x = Some a" "a_obj_size a = of_nat c"
          using same [OF x] by auto
        then have "alloc_for s c x" using rs(1) x True uc by (auto simp: alloc_for_def h_def)
        with no show False by simp
      qed
      have szn: "map_option a_obj_size (alloc_at s' (AObj tmp)) = Some (of_nat c)"
        by (simp add: at Anew_def)
      have inj': "inj_on (\<lambda>r. map_option a_obj_size (alloc_at s' r)) (set (AObj tmp # rs))"
        unfolding inj_on_def
      proof (intro ballI impI)
        fix x y assume x: "x \<in> set (AObj tmp # rs)" and y: "y \<in> set (AObj tmp # rs)"
          and e: "map_option a_obj_size (alloc_at s' x) = map_option a_obj_size (alloc_at s' y)"
        show "x = y"
        proof (cases "x = AObj tmp")
          case True
          show ?thesis
          proof (rule ccontr)
            assume "x \<noteq> y"
            with True y have "y \<in> set rs" by auto
            from other [OF this] e szn True show False by (cases "alloc_at s' y") auto
          qed
        next
          case False
          with x have xr: "x \<in> set rs" by simp
          have "y \<noteq> AObj tmp" using other [OF xr] e szn by (cases "alloc_at s' x") auto
          with y have "y \<in> set rs" by simp
          with xr e inj show ?thesis by (auto dest: inj_onD)
        qed
      qed
      have ok': "\<And>r a. r \<in> set (AObj tmp # rs) \<Longrightarrow> alloc_at s' r = Some a \<Longrightarrow>
                alloc_ok s' a \<and> unat (a_obj_size a) mod 17 = b"
      proof -
        fix r a assume r: "r \<in> set (AObj tmp # rs)" and a: "alloc_at s' r = Some a"
        show "alloc_ok s' a \<and> unat (a_obj_size a) mod 17 = b"
        proof (cases "r = AObj tmp")
          case True
          with a have "a = Anew" by (simp add: at)
          with oknew \<open>b = h\<close> show ?thesis by (simp add: Anew_def uc h_def)
        next
          case False
          with r a ok show ?thesis by auto
        qed
      qed
      from ch d inj' ok' show ?thesis unfolding bucket_ok_def by blast
    qed
  qed
  from inv have rs0: "bucket_ok s h" by (simp add: slab_inv0_def h_def)
  then obtain rs where rs: "achain s (kmem_table s h) rs" by (auto simp: bucket_ok_def)
  show "alloc_for s' c (AObj tmp)"
    unfolding alloc_for_def
    using new_chain [OF rs] by (intro exI [of _ "AObj tmp # rs"] exI [of _ Anew])
      (simp add: h_def [symmetric] at, simp add: Anew_def uc)
  have lv: "live s' = live s" by (simp add: live_def nd)
  show "slab_inv0 K s'"
    unfolding slab_inv0_def
  proof (intro conjI allI impI ballI)
    show "finite (dom (nodes s'))" "distinct (freelist s')"
      using inv by (simp_all add: nd slab_inv0_def)
    show "dom (allocators s') \<subseteq> live s'" using inv tmp by (auto simp: lv s' slab_inv0_def)
    show "alloc_for s' (unat (ROUNDUP16 K)) Adam" using inv by (intro F3) (simp add: slab_inv0_def)
  next
    fix b :: nat assume "b < 17" then show "bucket_ok s' b" by (rule buckets)
  next
    fix p assume "p \<in> set (freelist s')"
    with inv show "page_ok p" "nodes s' p = None" by (simp_all add: nd slab_inv0_def)
  next
    fix p n assume n: "nodes s' p = Some n"
    with inv have *: "page_ok p" "node_ok p n" "\<exists>r. alloc_for s (unat (n_obj_size n)) r"
      by (simp_all add: nd slab_inv0_def)
    show "page_ok p" "node_ok p n" by (rule *)+
    from *(3) F3 show "\<exists>r. alloc_for s' (unat (n_obj_size n)) r" by blast
  qed
qed

subsection \<open>What kmalloc\_from changes\<close>

lemma same_allocs_refl [simp]: "same_allocs s s"
  by (simp add: same_allocs_def)

lemma same_allocs_sym: "same_allocs s s' \<Longrightarrow> same_allocs s' s"
  by (simp add: same_allocs_def)

lemma same_allocs_trans: "same_allocs s s' \<Longrightarrow> same_allocs s' s'' \<Longrightarrow> same_allocs s s''"
  by (simp add: same_allocs_def)

lemma same_allocs_upd:
  assumes "alloc_at s r = Some A" "alloc_at s' = (alloc_at s)(r \<mapsto> A')"
    "a_obj_size A' = a_obj_size A" "a_next A' = a_next A" "kmem_table s' = kmem_table s"
  shows "same_allocs s s'"
  using assms by (simp add: same_allocs_def)

lemma same_allocs_at:
  assumes "same_allocs s s'" "alloc_at s x = Some a"
  shows "\<exists>a'. alloc_at s' x = Some a' \<and> a_next a' = a_next a \<and> a_obj_size a' = a_obj_size a"
proof -
  from assms(1) have "map_option (\<lambda>a. (a_obj_size a, a_next a)) (alloc_at s' x) =
      map_option (\<lambda>a. (a_obj_size a, a_next a)) (alloc_at s x)"
    by (simp add: same_allocs_def)
  with assms(2) show ?thesis by (cases "alloc_at s' x") auto
qed

lemma same_allocs_for: "same_allocs s s' \<Longrightarrow> alloc_for s' c r = alloc_for s c r"
proof
  assume a: "same_allocs s s'" and b: "alloc_for s' c r"
  from a have t: "kmem_table s (c mod 17) = kmem_table s' (c mod 17)" by (simp add: same_allocs_def)
  show "alloc_for s c r"
    by (rule alloc_for_keep [OF b same_allocs_at [OF same_allocs_sym [OF a]] t])
next
  assume a: "same_allocs s s'" and b: "alloc_for s c r"
  from a have t: "kmem_table s' (c mod 17) = kmem_table s (c mod 17)" by (simp add: same_allocs_def)
  show "alloc_for s' c r"
    by (rule alloc_for_keep [OF b same_allocs_at [OF a] t])
qed

lemma same_allocs_dom: "same_allocs s s' \<Longrightarrow> dom (allocators s') = dom (allocators s)"
proof -
  assume a: "same_allocs s s'"
  have "allocators s' x = None \<longleftrightarrow> allocators s x = None" for x
  proof -
    from a have "map_option (\<lambda>a. (a_obj_size a, a_next a)) (alloc_at s' (AObj x)) =
      map_option (\<lambda>a. (a_obj_size a, a_next a)) (alloc_at s (AObj x))"
      by (simp add: same_allocs_def)
    then show ?thesis
      by (cases "allocators s' x"; cases "allocators s x") (simp_all add: alloc_at_def)
  qed
  then show ?thesis by (auto simp: dom_def)
qed

lemma same_allocs_lock [simp]:
  "same_allocs (s\<lparr>kmem_table_lock := l\<rparr>) s' = same_allocs s s'"
  "same_allocs s (s'\<lparr>kmem_table_lock := l\<rparr>) = same_allocs s s'"
  by (simp_all add: same_allocs_def)

lemma page_total_proj [simp]:
  "page_total (s\<lparr>kmem_table_lock := l\<rparr>) = page_total s"
  "page_total (s\<lparr>mem := m\<rparr>) = page_total s"
  "page_total (alloc_upd r f s) = page_total s"
  by (simp_all add: page_total_def)

lemma kmalloc_from_took:
  assumes inv: "slab_inv0 K s" and reg: "alloc_for s c r" and sz: "ROUNDUP16 (sz :: 32 word) = of_nat c"
  shows "\<exists>a s'. kmalloc_from r sz s = Inr (a, s') \<and>
           (if a = NULL then s' = s else slab_inv0 K s' \<and> took s a s')"
proof -
  from reg obtain A where A: "alloc_at s r = Some A" by (auto simp: alloc_for_def)
  from inv have fin: "finite (dom (nodes s))" by (simp add: slab_inv0_def)
  note ok = inv_alloc_ok [OF inv reg A]
  show ?thesis
  proof (cases "a_list A = NULL")
    case False
    from kmalloc_from_take [OF inv reg A False, of sz] obtain n x xs s' A' where
      *: "nodes s (a_list A) = Some n" "node_shape (a_list A) n c (x # xs)"
      "kmalloc_from r sz s = Inr (a_list A + of_nat (region c + x * c), s')"
      "slab_inv0 K s'"
      "nodes s' = (nodes s)(a_list A \<mapsto> n\<lparr>n_cnt := n_cnt n + 1, n_avail := n_table n ! x\<rparr>)"
      "freelist s' = freelist s" "kmem_table s' = kmem_table s"
      "kmem_table_lock s' = kmem_table_lock s" "mem s' = mem s"
      "a_list A + of_nat (region c + x * c) \<notin> live s"
      "live s' = insert (a_list A + of_nat (region c + x * c)) (live s)"
      "alloc_at s' = (alloc_at s)(r \<mapsto> A')" "a_obj_size A' = a_obj_size A" "a_next A' = a_next A"
      by blast
    from inv_node [OF inv *(1)] have pg: "page_ok (a_list A)" by simp
    from *(2) have "x < capa c" by (auto simp: node_shape_def)
    from object_facts(2) [OF *(2) pg this] have nz: "a_list A + of_nat (region c + x * c) \<noteq> NULL" .
    have "dom (nodes s') = dom (nodes s)" using *(1,5) by auto
    then have pt: "page_total s' = page_total s" by (simp add: page_total_def *(6))
    have "took s (a_list A + of_nat (region c + x * c)) s'"
      unfolding took_def
      using same_allocs_upd [OF A *(12,13,14,7)] *(8,9,10,11) nz pt by simp
    with *(3,4) nz show ?thesis by auto
  next
    case True
    show ?thesis
    proof (cases "freelist s")
      case Nil
      from kmalloc_from_nopage [OF inv reg A True Nil] show ?thesis by simp
    next
      case (Cons q qs)
      from kmalloc_from_fresh [OF inv reg A True Cons sz] obtain n' s' A' where
        *: "node_shape q n' c [1 ..< capa c]"
        "kmalloc_from r sz s = Inr (q + of_nat (region c), s')"
        "slab_inv0 K s'"
        "nodes s' = (nodes s)(q \<mapsto> n')" "nodes s q = None" "page_ok q"
        "freelist s' = qs" "kmem_table s' = kmem_table s"
        "kmem_table_lock s' = kmem_table_lock s" "mem s' = mem s"
        "q + of_nat (region c) \<notin> live s"
        "live s' = insert (q + of_nat (region c)) (live s)"
        "alloc_at s' = (alloc_at s)(r \<mapsto> A')" "a_obj_size A' = a_obj_size A" "a_next A' = a_next A"
        by blast
      from ok have c: "class_ok c" by (auto simp: alloc_ok_def)
      from capa_bounds [OF c] have "0 < capa c" by simp
      from object_facts(2) [OF *(1,6) this] have nz: "q + of_nat (region c) \<noteq> NULL" by simp
      have "card (dom (nodes s')) = Suc (card (dom (nodes s)))"
        using *(4,5) fin by (simp add: card_insert_if domIff)
      then have pt: "page_total s' = page_total s" by (simp add: page_total_def *(7) Cons)
      have "took s (q + of_nat (region c)) s'"
        unfolding took_def
        using same_allocs_upd [OF A *(13,14,15,8)] *(9,10,11,12) nz pt by simp
      with *(2,3) nz show ?thesis by auto
    qed
  qed
qed

subsection \<open>get\_allocator and kmalloc keep the invariant\<close>

lemma roundup_class:
  assumes "32 \<le> unat (sz :: 32 word)" "unat sz \<le> 4048"
  defines "c \<equiv> (unat sz + 15) div 16 * 16"
  shows "class_ok c" "ROUNDUP16 sz = of_nat c" "ROUNDUP16 (ucast sz :: 64 word) = of_nat c"
    "unat (ROUNDUP16 sz) = c"
proof -
  show c: "class_ok c" unfolding c_def by (rule class_ok_roundup [OF assms(1,2)])
  show r: "ROUNDUP16 sz = of_nat c" unfolding c_def by (rule ROUNDUP16_32 [OF assms(2)])
  have "unat (ucast sz :: 64 word) \<le> 4100" using assms(2) by (simp add: unat_ucast_32_64)
  from ROUNDUP16_64 [OF this] show "ROUNDUP16 (ucast sz :: 64 word) = of_nat c"
    by (simp add: unat_ucast_32_64 c_def)
  show "unat (ROUNDUP16 sz) = c" unfolding r by (rule unat_of_nat32 [OF class_lt [OF c]])
qed

lemma kmalloc_found:
  assumes inv: "slab_inv0 K s" and sz: "32 \<le> unat sz" "unat sz \<le> 4048"
    and reg: "alloc_for s ((unat sz + 15) div 16 * 16) r"
  shows "kmalloc K sz s = kmalloc_from r sz s"
proof -
  note rc = roundup_class [OF sz]
  from reg have "r \<noteq> ANull" by (auto simp: alloc_for_def alloc_at_def)
  with get_allocator_found [OF inv_bucket [OF inv] reg rc(1,3), of K] sz show ?thesis
    by (simp add: kmalloc.simps [of K sz] KMEM_OBJ_MIN_SIZE_def KMEM_OBJ_MAX_SIZE_def
        word_less_nat_alt unat_ucast_32_64)
qed

lemma relock_state: "\<not> kmem_table_lock s \<Longrightarrow> s\<lparr>kmem_table_lock := True\<rparr>\<lparr>kmem_table_lock := False\<rparr> = s"
  by simp

lemma get_allocator_inv:
  assumes K: "32 \<le> unat K" "unat K \<le> 4048" and inv: "slab_inv K s"
    and c: "class_ok c" and raw: "ROUNDUP16 raw = of_nat c"
  shows "\<exists>r s'. get_allocator K raw s = Inr (r, s') \<and> slab_inv K s' \<and> mem s' = mem s \<and>
           page_total s' = page_total s \<and>
           live s' - dom (allocators s') = live s - dom (allocators s) \<and> live s \<subseteq> live s' \<and>
           (if r = ANull then s' = s else alloc_for s' c r) \<and>
           (\<forall>p n. nodes s' p = Some n \<longrightarrow> n_obj_size n = of_nat c \<longrightarrow> nodes s p = Some n)"
proof (cases "\<exists>r. alloc_for s c r")
  case True
  then obtain r where r: "alloc_for s c r" ..
  from inv have inv0: "slab_inv0 K s" by (simp add: slab_inv_def)
  from r have "r \<noteq> ANull" by (auto simp: alloc_for_def alloc_at_def)
  with get_allocator_found [OF inv_bucket [OF inv0] r c raw, of K] inv r show ?thesis by auto
next
  case False
  then have no: "\<And>r. \<not> alloc_for s c r" by simp
  from inv have inv0: "slab_inv0 K s" and ul: "\<not> kmem_table_lock s" by (simp_all add: slab_inv_def)
  define s1 where "s1 = s\<lparr>kmem_table_lock := True\<rparr>"
  have inv1: "slab_inv0 K s1" using inv0 by (simp add: s1_def)
  have no1: "\<forall>r. \<not> alloc_for s1 c r" using no by (simp add: s1_def)
  note sm = search_missing [OF inv_bucket [OF inv0] _ c]
  note sm1 = search_missing [OF inv_bucket [OF inv1] no1 c]
  have tb1: "kmem_table s1 = kmem_table s" by (simp add: s1_def)
  note rk = roundup_class [OF K]
  from inv0 have adam: "alloc_for s1 ((unat K + 15) div 16 * 16) Adam"
    by (simp add: slab_inv0_def rk(4) s1_def)
  have km: "kmalloc K K s1 = kmalloc_from Adam K s1" by (rule kmalloc_found [OF inv1 K adam])
  from kmalloc_from_took [OF inv1 adam rk(2)] obtain tmp s2 where
    s2: "kmalloc_from Adam K s1 = Inr (tmp, s2)"
    and t: "if tmp = NULL then s2 = s1 else slab_inv0 K s2 \<and> took s1 tmp s2" by blast
  have step: "get_allocator K raw s =
      (if NULL \<noteq> tmp
       then Inr (AObj tmp, (register_allocator tmp (c mod 17) (of_nat c) s2)
                    \<lparr>kmem_table_lock := release (kmem_table_lock s2)\<rparr>)
       else Inr (ANull, s2\<lparr>kmem_table_lock := release (kmem_table_lock s2)\<rparr>))"
    using sm(1) sm1(2) no ul km s2
    by (simp add: get_allocator.simps [of K raw s] raw hash_class [OF c] acquire_def
        s1_def [symmetric])
  show ?thesis
  proof (cases "tmp = NULL")
    case True
    with t have "s2 = s1" by simp
    moreover from ul have "s\<lparr>kmem_table_lock := False\<rparr> = s" by simp
    ultimately show ?thesis using True step inv by (simp add: release_def s1_def)
  next
    case nz: False
    with t have inv2: "slab_inv0 K s2" and tk: "took s1 tmp s2" by simp_all
    from tk have sa: "same_allocs s1 s2" and lk: "kmem_table_lock s2 = True"
      and m2: "mem s2 = mem s" and nl: "tmp \<notin> live s" and lv: "live s2 = insert tmp (live s)"
      and pt: "page_total s2 = page_total s"
      by (simp_all add: took_def s1_def)
    have no2: "\<And>r. \<not> alloc_for s2 c r" using no1 by (simp add: same_allocs_for [OF sa])
    have d2: "dom (allocators s2) = dom (allocators s)"
      using same_allocs_dom [OF sa] by (simp add: s1_def)
    from inv0 have sub: "dom (allocators s) \<subseteq> live s" by (simp add: slab_inv0_def)
    have t1: "tmp \<in> live s2" by (simp add: lv)
    have t2: "tmp \<notin> dom (allocators s2)" using sub nl by (auto simp: d2)
    define s3 where "s3 = register_allocator tmp (c mod 17) (of_nat c) s2"
    note rg = slab_inv0_register [OF inv2 c no2 t1 t2, folded s3_def]
    define s4 where "s4 = s3\<lparr>kmem_table_lock := release (kmem_table_lock s2)\<rparr>"
    have r: "get_allocator K raw s = Inr (AObj tmp, s4)" using step nz by (simp add: s4_def s3_def)
    have i4: "slab_inv K s4" using rg(1) by (simp add: slab_inv_def s4_def release_def)
    have m4: "mem s4 = mem s" using m2 by (simp add: s4_def s3_def register_allocator_def)
    have p4: "page_total s4 = page_total s"
      using pt by (simp add: s4_def s3_def register_allocator_def page_total_def)
    have l4: "live s4 = insert tmp (live s)" using lv by (simp add: s4_def s3_def register_allocator_def)
    have d4: "dom (allocators s4) = insert tmp (dom (allocators s))"
      using d2 by (simp add: s4_def s3_def register_allocator_def)
    have u4: "live s4 - dom (allocators s4) = live s - dom (allocators s)"
      using nl by (auto simp: l4 d4)
    have a4: "alloc_for s4 c (AObj tmp)" using rg(2) by (simp add: s4_def)
    have n4: "\<And>p n. nodes s4 p = Some n \<Longrightarrow> n_obj_size n \<noteq> of_nat c"
    proof
      fix p n assume n: "nodes s4 p = Some n" and e: "n_obj_size n = of_nat c"
      then have "nodes s2 p = Some n" by (simp add: s4_def s3_def register_allocator_def)
      with inv2 have "\<exists>r. alloc_for s2 (unat (n_obj_size n)) r" by (simp add: slab_inv0_def)
      moreover have "unat (of_nat c :: 64 word) = c" using class_lt [OF c] by (intro unat_of_nat64) simp
      ultimately show False using no2 e by simp
    qed
    have "live s \<subseteq> live s4" by (auto simp: l4)
    with r i4 m4 p4 u4 a4 n4 show ?thesis by auto
  qed
qed

lemma kmalloc_mid:
  assumes K: "32 \<le> unat K" "unat K \<le> 4048" and inv: "slab_inv K s"
    and sz: "32 \<le> unat sz" "unat sz \<le> 4048"
  shows "\<exists>a s'. kmalloc K sz s = Inr (a, s') \<and> slab_inv K s' \<and> mem s' = mem s \<and>
           page_total s' = page_total s \<and>
           (if a = NULL then live s' - dom (allocators s') = live s - dom (allocators s)
            else a \<notin> live s \<and> a \<in> live s' \<and> a \<notin> dom (allocators s') \<and>
                 live s' - dom (allocators s') = insert a (live s - dom (allocators s)))"
proof -
  define c where "c = (unat sz + 15) div 16 * 16"
  note rc = roundup_class [OF sz, folded c_def]
  from get_allocator_inv [OF K inv rc(1,3)] obtain r s1 where
    g: "get_allocator K (ucast sz) s = Inr (r, s1)" and i1: "slab_inv K s1" and m1: "mem s1 = mem s"
    and p1: "page_total s1 = page_total s"
    and l1: "live s1 - dom (allocators s1) = live s - dom (allocators s)"
    and ss: "live s \<subseteq> live s1"
    and r: "if r = ANull then s1 = s else alloc_for s1 c r"
    by blast
  have e: "kmalloc K sz s = (if ANull = r then Inr (NULL, s1) else kmalloc_from r sz s1)"
    using g sz
    by (simp add: kmalloc.simps [of K sz] KMEM_OBJ_MIN_SIZE_def KMEM_OBJ_MAX_SIZE_def
        word_less_nat_alt unat_ucast_32_64)
  show ?thesis
  proof (cases "r = ANull")
    case True
    with e r i1 m1 p1 l1 show ?thesis by auto
  next
    case False
    with r have reg: "alloc_for s1 c r" by simp
    from i1 have i0: "slab_inv0 K s1" and ul: "\<not> kmem_table_lock s1" by (simp_all add: slab_inv_def)
    from kmalloc_from_took [OF i0 reg rc(2)] obtain a s' where
      k: "kmalloc_from r sz s1 = Inr (a, s')"
      and t: "if a = NULL then s' = s1 else slab_inv0 K s' \<and> took s1 a s'" by blast
    show ?thesis
    proof (cases "a = NULL")
      case True
      with t e k False i1 m1 p1 l1 show ?thesis by auto
    next
      case nz: False
      with t have i': "slab_inv0 K s'" and tk: "took s1 a s'" by simp_all
      from tk have sa: "same_allocs s1 s'" and lk: "kmem_table_lock s' = kmem_table_lock s1"
        and m': "mem s' = mem s1" and nl: "a \<notin> live s1" and lv: "live s' = insert a (live s1)"
        and pt: "page_total s' = page_total s1"
        by (simp_all add: took_def)
      have d': "dom (allocators s') = dom (allocators s1)" by (rule same_allocs_dom [OF sa])
      from i0 have sub1: "dom (allocators s1) \<subseteq> live s1" by (simp add: slab_inv0_def)
      from inv have sub: "dom (allocators s) \<subseteq> live s" by (simp add: slab_inv_def slab_inv0_def)
      have nd: "a \<notin> dom (allocators s')" using sub1 nl by (auto simp: d')
      have nls: "a \<notin> live s" using nl ss by auto
      have "live s' - dom (allocators s') = insert a (live s1 - dom (allocators s1))"
        using nd by (auto simp: lv d')
      then have u': "live s' - dom (allocators s') = insert a (live s - dom (allocators s))"
        by (simp only: l1)
      have "slab_inv K s'" using i' ul lk by (simp add: slab_inv_def)
      with e k False nz m' m1 pt p1 nls lv nd u' show ?thesis by auto
    qed
  qed
qed

lemma kmalloc_inv:
  assumes K: "32 \<le> unat K" "unat K \<le> 4048" and inv: "slab_inv K s"
  shows "\<exists>a s'. kmalloc K sz s = Inr (a, s') \<and> slab_inv K s' \<and> mem s' = mem s \<and>
           page_total s' = page_total s \<and>
           (if a = NULL then live s' - dom (allocators s') = live s - dom (allocators s)
            else a \<notin> live s \<and> a \<in> live s' \<and> a \<notin> dom (allocators s') \<and>
                 live s' - dom (allocators s') = insert a (live s - dom (allocators s)))"
proof -
  consider "sz < 32" | "4048 < sz" | "32 \<le> unat sz" "unat sz \<le> 4048"
    by (fastforce simp: word_less_nat_alt)
  then show ?thesis
  proof cases
    case 1
    have "32 \<le> unat (32 :: 32 word)" "unat (32 :: 32 word) \<le> 4048" by simp_all
    from kmalloc_mid [OF K inv this] show ?thesis by (simp only: kmalloc_too_small [OF 1])
  next
    case 2
    with inv show ?thesis by (simp add: kmalloc_too_large)
  next
    case 3
    then show ?thesis by (rule kmalloc_mid [OF K inv])
  qed
qed

subsection \<open>Putting a slot back into a node\<close>

lemma obj_addr_inj:
  assumes "class_ok c" "page_ok p" "i < capa c" "j < capa c"
    "p + of_nat (region c + i * c) = p + of_nat (region c + j * c)"
  shows "i = j"
proof -
  from page_off_inj [OF assms(2,2) obj_offset(1) [OF assms(1,3)] obj_offset(1) [OF assms(1,4)] assms(5)]
  have "i * c = j * c" by simp
  moreover from assms(1) have "0 < c" by (simp add: class_ok_def)
  ultimately show ?thesis by simp
qed

lemma free_list_bound:
  assumes "distinct xs" "\<And>x. x \<in> set xs \<Longrightarrow> x < m" "i < m" "i \<notin> set xs"
  shows "length xs < m"
proof -
  have "set xs \<subseteq> {0 ..< m} - {i}" using assms(2,4) by auto
  then have "card (set xs) \<le> card ({0 ..< m} - {i})" by (intro card_mono) simp_all
  also have "\<dots> = m - 1" using assms(3) by simp
  finally show ?thesis using assms(1,3) by (simp add: distinct_card)
qed

lemma free_list_all:
  assumes "distinct xs" "\<And>x. x \<in> set xs \<Longrightarrow> x < m" "length xs = m"
  shows "set xs = {0 ..< m}"
proof (rule card_subset_eq)
  show "set xs \<subseteq> {0 ..< m}" using assms(2) by auto
  show "card (set xs) = card {0 ..< m}" using assms(1,3) by (simp add: distinct_card)
qed simp

lemma node_put:
  assumes sh: "node_shape p n c xs" and pg: "page_ok p" and i: "i < capa c" "i \<notin> set xs"
  defines "a \<equiv> p + of_nat (region c + i * c)"
  defines "n' \<equiv> n\<lparr>n_table := (n_table n)[i := n_avail n], n_avail := of_nat i, n_cnt := n_cnt n - 1\<rparr>"
  shows "(ucast ((a - n_obj_addr n) div n_obj_size n) :: 8 word) = of_nat i"
    "unat (of_nat i :: 8 word) = i" "i < length (n_table n)"
    "node_shape p n' c (i # xs)"
    "objects n' = objects n - {a}"
    "a \<in> objects n"
    "n_avail n' \<noteq> TABLE_END"
    "0 = n_cnt n - 1 \<longleftrightarrow> unat (n_cnt n) = 1"
    "unat (n_cnt n) = 1 \<Longrightarrow> objects n = {a}"
    "unat (n_cnt n) \<noteq> 1 \<Longrightarrow> node_ok p n'"
    "n_obj_size n \<noteq> 0"
proof -
  from sh have c: "class_ok c" and ch: "chain (n_table n) (n_avail n) xs"
    and d: "distinct xs" and cnt: "unat (n_cnt n) + length xs = capa c"
    and len: "length (n_table n) = capa c"
    and oa: "n_obj_addr n = p + of_nat (region c)" and os: "n_obj_size n = of_nat c"
    by (auto simp: node_shape_def)
  from capa_bounds [OF c] have cb: "capa c \<le> 123" by simp
  with i have i8: "i < 255" "i < 256" by simp_all
  show u: "unat (of_nat i :: 8 word) = i" by (rule unat_of_nat8 [OF i8(2)])
  show "(ucast ((a - n_obj_addr n) div n_obj_size n) :: 8 word) = of_nat i"
    unfolding a_def oa os by (rule obj_index [OF c i(1) pg])
  show il: "i < length (n_table n)" using i len by simp
  have bd: "\<And>x. x \<in> set xs \<Longrightarrow> x < capa c" using shape_free_bound [OF sh] .
  from free_list_bound [OF d bd i] have lx: "length xs < capa c" .
  with cnt have c1: "1 \<le> unat (n_cnt n)" by simp
  then have nz: "n_cnt n \<noteq> 0" by auto
  have um: "unat (n_cnt n - 1) = unat (n_cnt n) - 1" by (rule unat_minus_one [OF nz])
  have ch': "chain ((n_table n)[i := n_avail n]) (of_nat i) (i # xs)"
    by (rule chain_push [OF ch i(2) il i8(1)])
  show sh': "node_shape p n' c (i # xs)"
    using c ch' d i cnt len oa os c1 um by (simp add: node_shape_def n'_def)
  have "unat (of_nat c :: 64 word) = c" using class_lt [OF c] by (intro unat_of_nat64) simp
  moreover from c have "0 < c" by (simp add: class_ok_def)
  ultimately show "n_obj_size n \<noteq> 0" unfolding os by (metis less_numeral_extra(3) unat_0)
  show ob: "objects n' = objects n - {a}"
    unfolding objects_shape [OF sh'] objects_shape [OF sh] a_def
    using obj_addr_inj [OF c pg _ i(1)] i by auto
  show ain: "a \<in> objects n" unfolding objects_shape [OF sh] a_def using i by auto
  show "n_avail n' \<noteq> TABLE_END"
  proof
    assume "n_avail n' = TABLE_END"
    then have "unat (of_nat i :: 8 word) = unat (TABLE_END :: 8 word)" by (simp add: n'_def)
    with u i8 show False by (simp add: TABLE_END_def)
  qed
  show "0 = n_cnt n - 1 \<longleftrightarrow> unat (n_cnt n) = 1"
  proof
    assume "0 = n_cnt n - 1"
    then have "unat (n_cnt n - 1) = 0" by simp
    with um c1 show "unat (n_cnt n) = 1" by simp
  next
    assume "unat (n_cnt n) = 1"
    with um have "unat (n_cnt n - 1) = 0" by simp
    then show "0 = n_cnt n - 1" by (simp add: unat_eq_0)
  qed
  show "objects n = {a}" if "unat (n_cnt n) = 1"
  proof -
    from that cnt have "length (i # xs) = capa c" by simp
    moreover have "distinct (i # xs)" using d i by simp
    moreover have "\<And>x. x \<in> set (i # xs) \<Longrightarrow> x < capa c" using bd i by auto
    ultimately have "set (i # xs) = {0 ..< capa c}" by (intro free_list_all)
    then have "objects n' = {}" unfolding objects_shape [OF sh'] by auto
    with ob ain show ?thesis by auto
  qed
  show "node_ok p n'" if "unat (n_cnt n) \<noteq> 1"
  proof -
    from that c1 cnt have "length (i # xs) < capa c" by simp
    with sh' show ?thesis unfolding node_ok_def by blast
  qed
qed

subsection \<open>Unlinking a node from a list\<close>

lemma unlink_loop_find:
  assumes "nlist (nodes s) q (xs @ p # ys)" "p \<notin> set xs"
  shows "unlink_loop s p pp q = Some (Inr (if xs = [] then pp else NextOf (last xs), p))"
  using assms
proof (induction xs arbitrary: q pp)
  case Nil
  then show ?case by (subst unlink_loop.simps) simp
next
  case (Cons x xs)
  from Cons.prems obtain n where n: "q = x" "x \<noteq> NULL" "x \<noteq> p" "nodes s x = Some n"
    "nlist (nodes s) (n_next n) (xs @ p # ys)" "p \<notin> set xs"
    by (auto split: option.splits)
  from Cons.IH [OF n(5,6), of "NextOf x"] n(1-4) show ?case
    by (subst unlink_loop.simps) simp
qed

lemma nlist_unlink_head:
  assumes "nlist h q (p # ys)" "distinct (p # ys)" "h p = Some t"
  shows "nlist (h(p := None)) (n_next t) ys"
proof -
  from assms(1,3) have "nlist h (n_next t) ys" by simp
  then show ?thesis by (rule nlist_cong) (use assms(2) in auto)
qed

lemma nlist_unlink_inner:
  assumes "nlist h q (xs @ p # ys)" "distinct (xs @ p # ys)" "h p = Some t" "xs \<noteq> []"
  shows "\<exists>m. h (last xs) = Some m \<and>
           nlist ((h(last xs \<mapsto> m\<lparr>n_next := n_next t\<rparr>))(p := None)) q (xs @ ys)"
  using assms
proof (induction xs arbitrary: q)
  case Nil
  then show ?case by simp
next
  case (Cons x xs)
  from Cons.prems(1) obtain n where n: "q = x" "x \<noteq> NULL" "h x = Some n"
    "nlist h (n_next n) (xs @ p # ys)"
    by (auto split: option.splits)
  from Cons.prems(2) have d: "x \<noteq> p" "x \<notin> set xs" "x \<notin> set ys" "distinct (xs @ p # ys)"
    "p \<notin> set ys" by auto
  show ?case
  proof (cases "xs = []")
    case True
    with n(4) Cons.prems(3) have t: "nlist h (n_next t) ys" by simp
    define h' where "h' = (h(x \<mapsto> n\<lparr>n_next := n_next t\<rparr>))(p := None)"
    have 1: "nlist h' (n_next t) ys"
      by (rule nlist_cong [OF t]) (use d in \<open>auto simp: h'_def\<close>)
    have 2: "h' x = Some (n\<lparr>n_next := n_next t\<rparr>)" using d by (simp add: h'_def)
    have 3: "nlist h' q (x # ys)" using 1 2 n by simp
    have 4: "last (x # xs) = x" "(x # xs) @ ys = x # ys" using True by simp_all
    show ?thesis unfolding 4 using n(3) 3 [unfolded h'_def] by blast
  next
    case False
    from Cons.IH [OF n(4) d(4) Cons.prems(3) False] obtain m where
      m: "h (last xs) = Some m"
      "nlist ((h(last xs \<mapsto> m\<lparr>n_next := n_next t\<rparr>))(p := None)) (n_next n) (xs @ ys)"
      by blast
    define h' where "h' = (h(last xs \<mapsto> m\<lparr>n_next := n_next t\<rparr>))(p := None)"
    have "last xs \<in> set xs" using False by simp
    with d have "x \<noteq> last xs" by auto
    then have 2: "h' x = Some n" using d n by (simp add: h'_def)
    have 3: "nlist h' q ((x # xs) @ ys)" using m(2) 2 n by (simp add: h'_def [symmetric])
    have 4: "last (x # xs) = last xs" using False by simp
    show ?thesis unfolding 4 using m(1) 3 [unfolded h'_def] by blast
  qed
qed

subsection \<open>The first part of kfree\<close>

lemma kfree_front:
  assumes n: "nodes s p = Some n" and p: "PGROUNDDOWN a = p"
    and i: "(ucast ((a - n_obj_addr n) div n_obj_size n) :: 8 word) = of_nat i"
      "unat (of_nat i :: 8 word) = i" "i < length (n_table n)"
    and nz: "n_obj_size n \<noteq> 0"
    and g: "get_allocator K (n_obj_size n) s = Inr (r, s)"
    and A: "alloc_at s r = Some A" and ul: "\<not> a_lock A"
  defines "n4 \<equiv> n\<lparr>n_next := (if TABLE_END = n_avail n then a_list A else n_next n),
                  n_table := (n_table n)[i := n_avail n], n_avail := of_nat i,
                  n_cnt := n_cnt n - 1\<rparr>"
  defines "A4 \<equiv> A\<lparr>a_lock := True, a_nobjs := a_nobjs A - 1,
                  a_list := (if TABLE_END = n_avail n then p else a_list A)\<rparr>"
  shows "\<exists>s4. nodes s4 = (nodes s)(p \<mapsto> n4) \<and> alloc_at s4 = (alloc_at s)(r \<mapsto> A4) \<and>
           freelist s4 = freelist s \<and> kmem_table s4 = kmem_table s \<and>
           kmem_table_lock s4 = kmem_table_lock s \<and> mem s4 = mem s \<and>
           dom (allocators s4) = dom (allocators s) \<and>
           kfree K a s =
             (case (if 0 = n_cnt n - 1 then kfree_drop r p s4 else Inr s4) of
                Inl e \<Rightarrow> Inl e
              | Inr s5 \<Rightarrow> Inr (alloc_upd r (\<lambda>a. a\<lparr>a_lock := release (a_lock a)\<rparr>) s5))"
proof -
  define s2 where "s2 = alloc_upd r (\<lambda>a. a\<lparr>a_lock := True, a_nobjs := a_nobjs a - 1\<rparr>) s"
  define s3 where "s3 = (if TABLE_END = n_avail n
       then alloc_upd r (\<lambda>a. a\<lparr>a_list := p\<rparr>) (node_upd p (\<lambda>n. n\<lparr>n_next := a_list A\<rparr>) s2)
       else s2)"
  define s4 where "s4 = node_upd p
       (\<lambda>n. n\<lparr>n_table := (n_table n)[i := n_avail n], n_avail := of_nat i, n_cnt := n_cnt n - 1\<rparr>) s3"
  have n2: "nodes s2 p = Some n" using n by (simp add: s2_def)
  have e: "kfree K a s =
             (case (if 0 = n_cnt n - 1 then kfree_drop r p s4 else Inr s4) of
                Inl e \<Rightarrow> Inl e
              | Inr s5 \<Rightarrow> Inr (alloc_upd r (\<lambda>a. a\<lparr>a_lock := release (a_lock a)\<rparr>) s5))"
    using n nz g A ul n2 i
    by (simp add: kfree_def Let_def p acquire_def s2_def [symmetric] s3_def [symmetric]
        s4_def [symmetric])
  have nd: "nodes s4 = (nodes s)(p \<mapsto> n4)"
    using n by (auto simp: s4_def s3_def s2_def n4_def fun_eq_iff)
  have at: "alloc_at s4 = (alloc_at s)(r \<mapsto> A4)"
    using A by (auto simp: s4_def s3_def s2_def A4_def fun_eq_iff)
  have rest: "freelist s4 = freelist s" "kmem_table s4 = kmem_table s"
     "kmem_table_lock s4 = kmem_table_lock s" "mem s4 = mem s"
     "dom (allocators s4) = dom (allocators s)"
    by (simp_all add: s4_def s3_def s2_def)
  from nd at rest e show ?thesis by blast
qed

subsection \<open>Dropping an empty node\<close>

lemma kfree_drop_run:
  assumes A: "alloc_at s r = Some A" and l: "nlist (nodes s) (a_list A) (xs @ p # ys)"
    and d: "distinct (xs @ p # ys)" and t: "nodes s p = Some t"
  shows "\<exists>s' A'. kfree_drop r p s = Inr s' \<and> alloc_at s' = (alloc_at s)(r \<mapsto> A') \<and>
      a_obj_size A' = a_obj_size A \<and> a_next A' = a_next A \<and> a_lock A' = a_lock A \<and>
      nlist (nodes s') (a_list A') (xs @ ys) \<and> freelist s' = p # freelist s \<and>
      kmem_table s' = kmem_table s \<and> kmem_table_lock s' = kmem_table_lock s \<and>
      mem s' = mem s \<and> dom (allocators s') = dom (allocators s) \<and>
      nodes s' p = None \<and>
      (\<forall>q. q \<noteq> p \<longrightarrow> map_option (\<lambda>m. m\<lparr>n_next := NULL\<rparr>) (nodes s' q) =
                        map_option (\<lambda>m. m\<lparr>n_next := NULL\<rparr>) (nodes s q)) \<and>
      (\<forall>q. q \<noteq> p \<longrightarrow> q \<notin> set xs \<longrightarrow> nodes s' q = nodes s q)"
proof -
  from d have px: "p \<notin> set xs" by auto
  from nlist_dom [OF l, of p] have p0: "p \<noteq> NULL" by simp
  have scan: "unlink_scan s p (a_list A) = Inr (if xs = [] then ListHead else NextOf (last xs), p)"
    by (simp add: unlink_scan_def unlink_loop_find [OF l px])
  show ?thesis
  proof (cases "xs = []")
    case True
    define s' where "s' = alloc_upd r (\<lambda>a. a\<lparr>a_npages := a_npages a - 1\<rparr>)
      (freepage p ((alloc_upd r (\<lambda>a. a\<lparr>a_list := n_next t\<rparr>) s)\<lparr>nodes := (nodes s)(p := None)\<rparr>))"
    have e: "kfree_drop r p s = Inr s'"
      using A scan p0 t True by (simp add: kfree_drop_def Let_def s'_def)
    define A' where "A' = A\<lparr>a_list := n_next t, a_npages := a_npages A - 1\<rparr>"
    have at: "alloc_at s' = (alloc_at s)(r \<mapsto> A')"
      using A by (auto simp: s'_def A'_def fun_eq_iff)
    have nd: "nodes s' = (nodes s)(p := None)" by (simp add: s'_def)
    have ls: "nlist (nodes s') (a_list A') (xs @ ys)"
      using nlist_unlink_head [OF l [unfolded True append_Nil] d [unfolded True append_Nil] t]
      by (simp add: nd A'_def True)
    have rest: "freelist s' = p # freelist s" "kmem_table s' = kmem_table s"
      "kmem_table_lock s' = kmem_table_lock s" "mem s' = mem s"
      "dom (allocators s') = dom (allocators s)"
      by (simp_all add: s'_def)
    have A'': "a_obj_size A' = a_obj_size A" "a_next A' = a_next A" "a_lock A' = a_lock A"
      by (simp_all add: A'_def)
    from e at A'' ls rest nd show ?thesis by (intro exI [of _ s'] exI [of _ A']) simp
  next
    case False
    from nlist_unlink_inner [OF l d t False] obtain m where
      m: "nodes s (last xs) = Some m"
      "nlist (((nodes s)(last xs \<mapsto> m\<lparr>n_next := n_next t\<rparr>))(p := None)) (a_list A) (xs @ ys)"
      by blast
    define s' where "s' = alloc_upd r (\<lambda>a. a\<lparr>a_npages := a_npages a - 1\<rparr>)
      (freepage p ((node_upd (last xs) (\<lambda>n. n\<lparr>n_next := n_next t\<rparr>) s)
         \<lparr>nodes := (nodes (node_upd (last xs) (\<lambda>n. n\<lparr>n_next := n_next t\<rparr>) s))(p := None)\<rparr>))"
    have e: "kfree_drop r p s = Inr s'"
      using A scan p0 t False by (simp add: kfree_drop_def Let_def s'_def)
    define A' where "A' = A\<lparr>a_npages := a_npages A - 1\<rparr>"
    have at: "alloc_at s' = (alloc_at s)(r \<mapsto> A')"
      using A by (auto simp: s'_def A'_def fun_eq_iff)
    have nd: "nodes s' = ((nodes s)(last xs \<mapsto> m\<lparr>n_next := n_next t\<rparr>))(p := None)"
      using m(1) by (simp add: s'_def)
    have ls: "nlist (nodes s') (a_list A') (xs @ ys)"
      using m(2) by (simp add: nd A'_def)
    have rest: "freelist s' = p # freelist s" "kmem_table s' = kmem_table s"
      "kmem_table_lock s' = kmem_table_lock s" "mem s' = mem s"
      "dom (allocators s') = dom (allocators s)"
      by (simp_all add: s'_def)
    have A'': "a_obj_size A' = a_obj_size A" "a_next A' = a_next A" "a_lock A' = a_lock A"
      by (simp_all add: A'_def)
    have lx: "last xs \<in> set xs" using False by simp
    have n1: "nodes s' p = None" by (simp add: nd)
    have n2: "\<forall>q. q \<noteq> p \<longrightarrow> map_option (\<lambda>m. m\<lparr>n_next := NULL\<rparr>) (nodes s' q) =
                        map_option (\<lambda>m. m\<lparr>n_next := NULL\<rparr>) (nodes s q)"
      using m(1) by (auto simp: nd)
    have n3: "\<forall>q. q \<noteq> p \<longrightarrow> q \<notin> set xs \<longrightarrow> nodes s' q = nodes s q"
      using lx by (auto simp: nd)
    from e at A'' ls rest n1 n2 n3 show ?thesis by (intro exI [of _ s'] exI [of _ A']) simp
  qed
qed

subsection \<open>Nodes that differ in the link only\<close>

lemma node_next_eq:
  assumes "m\<lparr>n_next := NULL\<rparr> = m0\<lparr>n_next := NULL\<rparr>"
  shows "n_obj_size m = n_obj_size m0" "n_obj_addr m = n_obj_addr m0" "n_avail m = n_avail m0"
    "n_cnt m = n_cnt m0" "n_table m = n_table m0"
    "objects m = objects m0" "node_shape q m c xs = node_shape q m0 c xs"
    "node_ok q m = node_ok q m0"
proof -
  have "n_obj_size (m\<lparr>n_next := NULL\<rparr>) = n_obj_size (m0\<lparr>n_next := NULL\<rparr>)"
    "n_obj_addr (m\<lparr>n_next := NULL\<rparr>) = n_obj_addr (m0\<lparr>n_next := NULL\<rparr>)"
    "n_avail (m\<lparr>n_next := NULL\<rparr>) = n_avail (m0\<lparr>n_next := NULL\<rparr>)"
    "n_cnt (m\<lparr>n_next := NULL\<rparr>) = n_cnt (m0\<lparr>n_next := NULL\<rparr>)"
    "n_table (m\<lparr>n_next := NULL\<rparr>) = n_table (m0\<lparr>n_next := NULL\<rparr>)"
    by (simp_all only: assms)
  then show f: "n_obj_size m = n_obj_size m0" "n_obj_addr m = n_obj_addr m0"
    "n_avail m = n_avail m0" "n_cnt m = n_cnt m0" "n_table m = n_table m0"
    by simp_all
  show "objects m = objects m0" by (simp add: objects_def free_slots_def f)
  show "\<And>c xs. node_shape q m c xs = node_shape q m0 c xs" by (simp add: node_shape_def f)
  then show "node_ok q m = node_ok q m0" by (simp add: node_ok_def)
qed

lemma node_next_upd [simp]:
  "objects (m\<lparr>n_next := x\<rparr>) = objects m"
  "node_shape q (m\<lparr>n_next := x\<rparr>) c xs = node_shape q m c xs"
  "node_ok q (m\<lparr>n_next := x\<rparr>) = node_ok q m"
  by (simp_all add: objects_def free_slots_def node_shape_def node_ok_def)

text \<open>The objects in use after one object of the node at \<open>p\<close> has gone.\<close>

lemma live_remove:
  assumes inv: "slab_inv0 K s" and n: "nodes s p = Some n" and a: "a \<in> objects n"
    and others: "\<And>q. q \<noteq> p \<Longrightarrow> map_option (\<lambda>m. m\<lparr>n_next := NULL\<rparr>) (nodes s' q) =
                        map_option (\<lambda>m. m\<lparr>n_next := NULL\<rparr>) (nodes s q)"
    and here: "case nodes s' p of None \<Rightarrow> objects n = {a} | Some n' \<Rightarrow> objects n' = objects n - {a}"
  shows "live s' = live s - {a}"
proof -
  from inv_node [OF inv n] obtain c xs where pg: "page_ok p" and sh: "node_shape p n c xs"
    by (auto simp: node_ok_def)
  from objects_page [OF sh pg a] have pa: "PGROUNDDOWN a = p" by simp
  have ob: "\<exists>m0. nodes s q = Some m0 \<and> objects m = objects m0"
    if "q \<noteq> p" "nodes s' q = Some m" for q m
  proof -
    from others [OF that(1)] that(2) obtain m0 where "nodes s q = Some m0"
      "m\<lparr>n_next := NULL\<rparr> = m0\<lparr>n_next := NULL\<rparr>" by (cases "nodes s q") auto
    with node_next_eq(6) [OF this(2)] show ?thesis by simp
  qed
  have ob': "\<exists>m. nodes s' q = Some m \<and> objects m = objects m0"
    if "q \<noteq> p" "nodes s q = Some m0" for q m0
  proof -
    from others [OF that(1)] that(2) obtain m where "nodes s' q = Some m"
      "m\<lparr>n_next := NULL\<rparr> = m0\<lparr>n_next := NULL\<rparr>" by (cases "nodes s' q") auto
    with node_next_eq(6) [OF this(2)] show ?thesis by simp
  qed
  have elsewhere: "x \<noteq> a" if "q \<noteq> p" "nodes s q = Some m0" "x \<in> objects m0" for q m0 x
  proof
    assume "x = a"
    from inv_node [OF inv that(2)] obtain c0 xs0 where "page_ok q" "node_shape q m0 c0 xs0"
      by (auto simp: node_ok_def)
    from objects_page [OF this(2,1) that(3)] \<open>x = a\<close> pa that(1) show False by simp
  qed
  show ?thesis
  proof (intro set_eqI iffI)
    fix x assume "x \<in> live s'"
    then obtain q m where m: "nodes s' q = Some m" "x \<in> objects m" by (auto simp: live_def)
    show "x \<in> live s - {a}"
    proof (cases "q = p")
      case True
      with m here have "x \<in> objects n - {a}" by simp
      with n show ?thesis by (auto simp: live_def)
    next
      case False
      from ob [OF False m(1)] obtain m0 where m0: "nodes s q = Some m0" "objects m = objects m0"
        by blast
      with m elsewhere [OF False m0(1), of x] show ?thesis by (auto simp: live_def)
    qed
  next
    fix x assume "x \<in> live s - {a}"
    then obtain q m0 where m0: "nodes s q = Some m0" "x \<in> objects m0" and xa: "x \<noteq> a"
      by (auto simp: live_def)
    show "x \<in> live s'"
    proof (cases "q = p")
      case True
      with m0 n have x: "x \<in> objects n - {a}" using xa by simp
      with here obtain n' where "nodes s' p = Some n'" "objects n' = objects n - {a}"
        by (cases "nodes s' p") auto
      with x show ?thesis by (auto simp: live_def)
    next
      case False
      from ob' [OF False m0(1)] m0(2) show ?thesis by (auto simp: live_def)
    qed
  qed
qed

subsection \<open>kfree keeps the invariant\<close>

lemma kfree_finish:
  assumes inv: "slab_inv0 K s" and n: "nodes s p = Some n" and sh: "node_shape p n c xs"
    and a: "a \<in> objects n" "a \<notin> dom (allocators s)"
    and reg: "alloc_for s c r" and A: "alloc_at s r = Some A"
    and at: "alloc_at s' = (alloc_at s)(r \<mapsto> A')"
    and A': "a_obj_size A' = a_obj_size A" "a_next A' = a_next A" "\<not> a_lock A'"
    and tb: "kmem_table s' = kmem_table s"
    and dm: "dom (allocators s') = dom (allocators s)"
    and others: "\<And>q. q \<noteq> p \<Longrightarrow> map_option (\<lambda>m. m\<lparr>n_next := NULL\<rparr>) (nodes s' q) =
                        map_option (\<lambda>m. m\<lparr>n_next := NULL\<rparr>) (nodes s q)"
    and unch: "\<And>q. q \<noteq> p \<Longrightarrow> q \<notin> has_space s (a_obj_size A) \<Longrightarrow> nodes s' q = nodes s q"
    and here: "case nodes s' p of
                 None \<Rightarrow> objects n = {a} \<and> freelist s' = p # freelist s
               | Some n' \<Rightarrow> objects n' = objects n - {a} \<and> node_ok p n' \<and>
                   n_obj_size n' = n_obj_size n \<and> n_avail n' \<noteq> TABLE_END \<and>
                   freelist s' = freelist s"
    and lst: "nlist (nodes s') (a_list A') L" "distinct L"
      "set L = (has_space s (a_obj_size A) - {p}) \<union> (dom (nodes s') \<inter> {p})"
  shows "slab_inv0 K s'" "live s' = live s - {a}" "page_total s' = page_total s"
    "same_allocs s s'"
proof -
  note ok = inv_alloc_ok [OF inv reg A]
  from inv_node [OF inv n] have pg: "page_ok p" by simp
  from sh have cz: "n_obj_size n = of_nat c" by (simp add: node_shape_def)
  have csz: "n_obj_size n = ucast (a_obj_size A)" using cz ok(2) by (simp add: ucast_class)
  have here': "case nodes s' p of None \<Rightarrow> objects n = {a} | Some n' \<Rightarrow> objects n' = objects n - {a}"
    using here by (cases "nodes s' p") auto
  show lv: "live s' = live s - {a}" by (rule live_remove [OF inv n a(1) others here'])
  show "same_allocs s s'" by (rule same_allocs_upd [OF A at A'(1,2) tb])
  from inv have fin: "finite (dom (nodes s))" by (simp add: slab_inv0_def)
  have dq: "q \<in> dom (nodes s') \<longleftrightarrow> q \<in> dom (nodes s)" if "q \<noteq> p" for q
  proof -
    have "nodes s' q = None \<longleftrightarrow> nodes s q = None"
      by (metis others [OF that] option.map_disc_iff)
    then show ?thesis by (simp add: domIff)
  qed
  have dsub: "dom (nodes s') \<subseteq> dom (nodes s)"
  proof
    fix q assume "q \<in> dom (nodes s')"
    then show "q \<in> dom (nodes s)" using dq [of q] n by (cases "q = p") auto
  qed
  have fin': "finite (dom (nodes s'))" by (rule finite_subset [OF dsub fin])
  from inv have fl_d: "distinct (freelist s)"
    and fl_p: "\<And>q. q \<in> set (freelist s) \<Longrightarrow> page_ok q \<and> nodes s q = None"
    and al: "dom (allocators s) \<subseteq> live s"
    by (simp_all add: slab_inv0_def)
  from fl_p [of p] n have pf: "p \<notin> set (freelist s)" by auto
  show "page_total s' = page_total s"
  proof (cases "nodes s' p")
    case None
    have e: "dom (nodes s') = dom (nodes s) - {p}"
    proof (intro set_eqI)
      fix q show "q \<in> dom (nodes s') \<longleftrightarrow> q \<in> dom (nodes s) - {p}"
        using dq [of q] None by (cases "q = p") auto
    qed
    have "p \<in> dom (nodes s)" using n by auto
    from card_Suc_Diff1 [OF fin this]
    have "card (dom (nodes s)) = Suc (card (dom (nodes s')))" unfolding e by simp
    with here None show ?thesis by (simp add: page_total_def)
  next
    case (Some n')
    have "dom (nodes s') = dom (nodes s)"
    proof (intro set_eqI)
      fix q show "q \<in> dom (nodes s') \<longleftrightarrow> q \<in> dom (nodes s)"
        using dq [of q] Some n by (cases "q = p") auto
    qed
    with here Some show ?thesis by (simp add: page_total_def)
  qed
  have hs: "has_space s' (a_obj_size A) =
      (has_space s (a_obj_size A) - {p}) \<union> (dom (nodes s') \<inter> {p})"
  proof (intro set_eqI iffI)
    fix q assume q: "q \<in> has_space s' (a_obj_size A)"
    then obtain m where m: "nodes s' q = Some m" "n_obj_size m = ucast (a_obj_size A)"
      "n_avail m \<noteq> TABLE_END" by (auto simp: has_space_def)
    show "q \<in> (has_space s (a_obj_size A) - {p}) \<union> (dom (nodes s') \<inter> {p})"
    proof (cases "q = p")
      case True
      with m show ?thesis by auto
    next
      case False
      from others [OF False] m(1) obtain m0 where m0: "nodes s q = Some m0"
        "m\<lparr>n_next := NULL\<rparr> = m0\<lparr>n_next := NULL\<rparr>" by (cases "nodes s q") auto
      from node_next_eq(1,3) [OF m0(2)] m m0(1) False show ?thesis by (auto simp: has_space_def)
    qed
  next
    fix q assume q: "q \<in> (has_space s (a_obj_size A) - {p}) \<union> (dom (nodes s') \<inter> {p})"
    show "q \<in> has_space s' (a_obj_size A)"
    proof (cases "q = p")
      case True
      with q obtain n' where n': "nodes s' p = Some n'" by auto
      with here csz True show ?thesis by (auto simp: has_space_def)
    next
      case False
      with q obtain m0 where m0: "nodes s q = Some m0" "n_obj_size m0 = ucast (a_obj_size A)"
        "n_avail m0 \<noteq> TABLE_END" by (auto simp: has_space_def)
      from others [OF False] m0(1) obtain m where m: "nodes s' q = Some m"
        "m\<lparr>n_next := NULL\<rparr> = m0\<lparr>n_next := NULL\<rparr>" by (cases "nodes s' q") auto
      from node_next_eq(1,3) [OF m(2)] m(1) m0 show ?thesis by (auto simp: has_space_def)
    qed
  qed
  show "slab_inv0 K s'"
  proof (rule slab_inv0_update [OF inv A _ at A' tb dm fin'])
    show "alloc_for s (unat (a_obj_size A)) r" using reg ok(2) by simp
    show "distinct (freelist s')"
      using here pf fl_d by (cases "nodes s' p") auto
    show "\<forall>q \<in> set (freelist s'). page_ok q \<and> nodes s' q = None"
    proof
      fix q assume q: "q \<in> set (freelist s')"
      show "page_ok q \<and> nodes s' q = None"
      proof (cases "q = p")
        case True
        with q here pf have "nodes s' p = None" by (cases "nodes s' p") auto
        with True pg show ?thesis by simp
      next
        case False
        with q here have "q \<in> set (freelist s)" by (cases "nodes s' p") auto
        with fl_p have *: "page_ok q" "nodes s q = None" by simp_all
        with others [OF False] show ?thesis by simp
      qed
    qed
    show "nodes s' q = Some m" if "nodes s q = Some m" "n_obj_size m \<noteq> ucast (a_obj_size A)" for q m
    proof -
      from that n csz have "q \<noteq> p" by auto
      moreover from that have "q \<notin> has_space s (a_obj_size A)" by (auto simp: has_space_def)
      ultimately show ?thesis using unch that(1) by simp
    qed
    show "nodes s q = Some m \<or> (n_obj_size m = ucast (a_obj_size A) \<and> node_ok q m \<and> page_ok q)"
      if m: "nodes s' q = Some m" for q m
    proof (cases "q = p")
      case True
      with m here csz pg show ?thesis by auto
    next
      case False
      show ?thesis
      proof (cases "q \<in> has_space s (a_obj_size A)")
        case False
        with unch [OF \<open>q \<noteq> p\<close>] m show ?thesis by simp
      next
        case True
        then obtain m0 where m0: "nodes s q = Some m0" "n_obj_size m0 = ucast (a_obj_size A)"
          by (auto simp: has_space_def)
        from others [OF \<open>q \<noteq> p\<close>] m m0(1) have e: "m\<lparr>n_next := NULL\<rparr> = m0\<lparr>n_next := NULL\<rparr>"
          by simp
        from inv_node [OF inv m0(1)] node_next_eq(1,8) [OF e] m0(2) show ?thesis by simp
      qed
    qed
    show "\<exists>ps. nlist (nodes s') (a_list A') ps \<and> distinct ps \<and> set ps = has_space s' (a_obj_size A)"
      using lst hs by auto
    show "dom (allocators s) \<subseteq> live s'"
      using al a(2) by (auto simp: lv)
  qed
qed

lemma ROUNDUP16_class: "class_ok c \<Longrightarrow> ROUNDUP16 (of_nat c :: 64 word) = of_nat c"
proof -
  assume c: "class_ok c"
  have u: "unat (of_nat c :: 64 word) = c" using class_lt [OF c] by (intro unat_of_nat64) simp
  from c have "c \<le> 4100" by (simp add: class_ok_def)
  with u have "unat (of_nat c :: 64 word) \<le> 4100" by simp
  from ROUNDUP16_64 [OF this] show ?thesis by (simp add: u class_ok_fix [OF c])
qed

lemma kfree_inv:
  assumes inv: "slab_inv K s" and a: "a \<in> live s" "a \<notin> dom (allocators s)"
  shows "\<exists>n c xs i s'. nodes s (PGROUNDDOWN a) = Some n \<and> node_shape (PGROUNDDOWN a) n c xs \<and>
     i < capa c \<and> i \<notin> set xs \<and> a = PGROUNDDOWN a + of_nat (region c + i * c) \<and>
     kfree K a s = Inr s' \<and> slab_inv K s' \<and> mem s' = mem s \<and> page_total s' = page_total s \<and>
     live s' = live s - {a} \<and> same_allocs s s' \<and>
     (\<forall>q. q \<noteq> PGROUNDDOWN a \<longrightarrow> map_option (\<lambda>m. m\<lparr>n_next := NULL\<rparr>) (nodes s' q) =
                        map_option (\<lambda>m. m\<lparr>n_next := NULL\<rparr>) (nodes s q)) \<and>
     (if unat (n_cnt n) = 1
      then nodes s' (PGROUNDDOWN a) = None \<and> freelist s' = PGROUNDDOWN a # freelist s \<and>
           objects n = {a}
      else freelist s' = freelist s \<and>
           (\<exists>n'. nodes s' (PGROUNDDOWN a) = Some n' \<and> node_shape (PGROUNDDOWN a) n' c (i # xs) \<and>
                 objects n' = objects n - {a})) \<and>
     (n_avail n \<noteq> TABLE_END \<longrightarrow> unat (n_cnt n) \<noteq> 1 \<longrightarrow>
        (\<forall>r A. alloc_at s r = Some A \<longrightarrow> (\<exists>A'. alloc_at s' r = Some A' \<and> a_list A' = a_list A)))"
proof -
  define p where "p = PGROUNDDOWN a"
  from inv have inv0: "slab_inv0 K s" and ul: "\<not> kmem_table_lock s" by (simp_all add: slab_inv_def)
  from live_page [OF inv0 a(1)] obtain n where n: "nodes s p = Some n" and an: "a \<in> objects n"
    by (auto simp: p_def)
  from inv_node [OF inv0 n] obtain c xs where pg: "page_ok p" and sh: "node_shape p n c xs"
    by (auto simp: node_ok_def)
  from an obtain i where i: "i < capa c" "i \<notin> set xs" and ai: "a = p + of_nat (region c + i * c)"
    unfolding objects_shape [OF sh] by blast
  note np = node_put [OF sh pg i, folded ai]
  from sh have c: "class_ok c" and cz: "n_obj_size n = of_nat c" by (simp_all add: node_shape_def)
  have uc: "unat (of_nat c :: 64 word) = c" using class_lt [OF c] by (intro unat_of_nat64) simp
  from inv0 n have "\<exists>r. alloc_for s (unat (n_obj_size n)) r" by (simp add: slab_inv0_def)
  then obtain r where reg: "alloc_for s c r" by (auto simp: cz uc)
  have g: "get_allocator K (n_obj_size n) s = Inr (r, s)"
    unfolding cz by (rule get_allocator_found [OF inv_bucket [OF inv0] reg c ROUNDUP16_class [OF c]])
  from reg obtain A where A: "alloc_at s r = Some A" by (auto simp: alloc_for_def)
  note ok = inv_alloc_ok [OF inv0 reg A]
  from ok(1) obtain ps where ula: "\<not> a_lock A" and ps: "nlist (nodes s) (a_list A) ps" "distinct ps"
    "set ps = has_space s (a_obj_size A)" by (auto simp: alloc_ok_def)
  have csz: "n_obj_size n = ucast (a_obj_size A)" using cz ok(2) by (simp add: ucast_class)
  have pin: "p \<in> set ps \<longleftrightarrow> n_avail n \<noteq> TABLE_END"
    using n csz by (auto simp: ps(3) has_space_def)
  define n4 where "n4 = n\<lparr>n_next := (if TABLE_END = n_avail n then a_list A else n_next n),
                  n_table := (n_table n)[i := n_avail n], n_avail := of_nat i,
                  n_cnt := n_cnt n - 1\<rparr>"
  define A4 where "A4 = A\<lparr>a_lock := True, a_nobjs := a_nobjs A - 1,
                  a_list := (if TABLE_END = n_avail n then p else a_list A)\<rparr>"
  from kfree_front [OF n p_def [symmetric] np(1,2,3,11) g A ula, folded n4_def A4_def]
  obtain s4 where s4: "nodes s4 = (nodes s)(p \<mapsto> n4)" "alloc_at s4 = (alloc_at s)(r \<mapsto> A4)"
    "freelist s4 = freelist s" "kmem_table s4 = kmem_table s"
    "kmem_table_lock s4 = kmem_table_lock s" "mem s4 = mem s"
    "dom (allocators s4) = dom (allocators s)"
    and e: "kfree K a s =
             (case (if 0 = n_cnt n - 1 then kfree_drop r p s4 else Inr s4) of
                Inl e \<Rightarrow> Inl e
              | Inr s5 \<Rightarrow> Inr (alloc_upd r (\<lambda>a. a\<lparr>a_lock := release (a_lock a)\<rparr>) s5))"
    by blast
  define n' where "n' = n\<lparr>n_table := (n_table n)[i := n_avail n], n_avail := of_nat i, n_cnt := n_cnt n - 1\<rparr>"
  have n4': "n4 = n'\<lparr>n_next := (if TABLE_END = n_avail n then a_list A else n_next n)\<rparr>"
    by (simp add: n4_def n'_def)
  have sh4: "node_shape p n4 c (i # xs)" using np(4) by (simp add: n4' n'_def)
  have ob4: "objects n4 = objects n - {a}" using np(5) by (simp add: n4' n'_def)
  have av4: "n_avail n4 \<noteq> TABLE_END" using np(7) by (simp add: n4_def)
  have sz4: "n_obj_size n4 = n_obj_size n" by (simp add: n4_def)
  define L4 where "L4 = (if TABLE_END = n_avail n then p # ps else ps)"
  from pg have p0: "p \<noteq> NULL" by (simp add: page_ok_def)
  have l4: "nlist (nodes s4) (a_list A4) L4"
  proof (cases "TABLE_END = n_avail n")
    case True
    with pin have "p \<notin> set ps" by simp
    then have "nlist (nodes s4) (a_list A) ps"
      by (intro nlist_cong [OF ps(1)]) (auto simp: s4)
    with True p0 show ?thesis by (simp add: L4_def A4_def s4 n4_def)
  next
    case False
    have "nlist (nodes s4) (a_list A) ps"
    proof (rule nlist_cong [OF ps(1)])
      fix q assume "q \<in> set ps"
      show "map_option n_next (nodes s4 q) = map_option n_next (nodes s q)"
        using n False by (simp add: s4 n4_def)
    qed
    with False show ?thesis by (simp add: L4_def A4_def)
  qed
  have d4: "distinct L4" "set L4 = insert p (set ps)" "p \<in> set L4"
    using ps(2) pin by (auto simp: L4_def)
  have A4s: "a_obj_size A4 = a_obj_size A" "a_next A4 = a_next A" by (simp_all add: A4_def)
  have A4r: "alloc_at s4 r = Some A4" by (simp add: s4)
  have result: "\<exists>s'. kfree K a s = Inr s' \<and> slab_inv K s' \<and> mem s' = mem s \<and>
     page_total s' = page_total s \<and> live s' = live s - {a} \<and> same_allocs s s' \<and>
     (\<forall>q. q \<noteq> p \<longrightarrow> map_option (\<lambda>m. m\<lparr>n_next := NULL\<rparr>) (nodes s' q) =
                        map_option (\<lambda>m. m\<lparr>n_next := NULL\<rparr>) (nodes s q)) \<and>
     (if unat (n_cnt n) = 1
      then nodes s' p = None \<and> freelist s' = p # freelist s \<and> objects n = {a}
      else freelist s' = freelist s \<and>
           (\<exists>n'. nodes s' p = Some n' \<and> node_shape p n' c (i # xs) \<and>
                 objects n' = objects n - {a})) \<and>
     (n_avail n \<noteq> TABLE_END \<longrightarrow> unat (n_cnt n) \<noteq> 1 \<longrightarrow>
        (\<forall>r A. alloc_at s r = Some A \<longrightarrow> (\<exists>A'. alloc_at s' r = Some A' \<and> a_list A' = a_list A)))"
  proof (cases "unat (n_cnt n) = 1")
    case False
    define s' where "s' = alloc_upd r (\<lambda>a. a\<lparr>a_lock := release (a_lock a)\<rparr>) s4"
    define A' where "A' = A4\<lparr>a_lock := False\<rparr>"
    have k: "kfree K a s = Inr s'" using e False np(8) by (simp add: s'_def)
    have nd: "nodes s' = (nodes s)(p \<mapsto> n4)" by (simp add: s'_def s4)
    have at: "alloc_at s' = (alloc_at s)(r \<mapsto> A')"
      by (auto simp: s'_def s4 A'_def release_def fun_eq_iff)
    have rest: "freelist s' = freelist s" "kmem_table s' = kmem_table s"
      "kmem_table_lock s' = kmem_table_lock s" "mem s' = mem s"
      "dom (allocators s') = dom (allocators s)"
      by (simp_all add: s'_def s4)
    have A's: "a_obj_size A' = a_obj_size A" "a_next A' = a_next A" "\<not> a_lock A'"
      "a_list A' = a_list A4"
      by (simp_all add: A'_def A4_def)
    have ls: "nlist (nodes s') (a_list A') L4" using l4 by (simp add: A's nd s4)
    have sl: "set L4 = (has_space s (a_obj_size A) - {p}) \<union> (dom (nodes s') \<inter> {p})"
      by (auto simp: d4 ps(3) nd)
    note fin = kfree_finish [OF inv0 n sh an a(2) reg A at A's(1,2,3) rest(2,5) _ _ _ ls d4(1) sl]
    have o: "\<And>q. q \<noteq> p \<Longrightarrow> map_option (\<lambda>m. m\<lparr>n_next := NULL\<rparr>) (nodes s' q) =
                        map_option (\<lambda>m. m\<lparr>n_next := NULL\<rparr>) (nodes s q)"
      by (simp add: nd)
    have u: "\<And>q. q \<noteq> p \<Longrightarrow> q \<notin> has_space s (a_obj_size A) \<Longrightarrow> nodes s' q = nodes s q"
      by (simp add: nd)
    have h: "case nodes s' p of
                 None \<Rightarrow> objects n = {a} \<and> freelist s' = p # freelist s
               | Some n' \<Rightarrow> objects n' = objects n - {a} \<and> node_ok p n' \<and>
                   n_obj_size n' = n_obj_size n \<and> n_avail n' \<noteq> TABLE_END \<and>
                   freelist s' = freelist s"
      using ob4 np(10) [OF False] av4 sz4 rest(1) by (simp add: nd n4' n'_def)
    note f = fin [OF o u h]
    have i': "slab_inv K s'" using f(1) ul rest(3) by (simp add: slab_inv_def)
    have keep: "\<And>r0 A0. n_avail n \<noteq> TABLE_END \<Longrightarrow> alloc_at s r0 = Some A0 \<Longrightarrow>
                  \<exists>A1. alloc_at s' r0 = Some A1 \<and> a_list A1 = a_list A0"
      using A by (auto simp: at A'_def A4_def)
    from k i' rest(4,1) f(2,3,4) o False nd sh4 ob4 keep show ?thesis
      by (intro exI [of _ s']) auto
  next
    case True
    from split_list [OF d4(3)] obtain xs' ys' where L: "L4 = xs' @ p # ys'" by blast
    have n4s: "nodes s4 p = Some n4" by (simp add: s4)
    from kfree_drop_run [OF A4r l4 [unfolded L] d4(1) [unfolded L] n4s]
    obtain s5 A5 where s5: "kfree_drop r p s4 = Inr s5" "alloc_at s5 = (alloc_at s4)(r \<mapsto> A5)"
      "a_obj_size A5 = a_obj_size A4" "a_next A5 = a_next A4" "a_lock A5 = a_lock A4"
      "nlist (nodes s5) (a_list A5) (xs' @ ys')" "freelist s5 = p # freelist s4"
      "kmem_table s5 = kmem_table s4" "kmem_table_lock s5 = kmem_table_lock s4"
      "mem s5 = mem s4" "dom (allocators s5) = dom (allocators s4)"
      "nodes s5 p = None"
      "\<forall>q. q \<noteq> p \<longrightarrow> map_option (\<lambda>m. m\<lparr>n_next := NULL\<rparr>) (nodes s5 q) =
                        map_option (\<lambda>m. m\<lparr>n_next := NULL\<rparr>) (nodes s4 q)"
      "\<forall>q. q \<noteq> p \<longrightarrow> q \<notin> set xs' \<longrightarrow> nodes s5 q = nodes s4 q"
      by blast
    define s' where "s' = alloc_upd r (\<lambda>a. a\<lparr>a_lock := release (a_lock a)\<rparr>) s5"
    define A' where "A' = A5\<lparr>a_lock := False\<rparr>"
    have k: "kfree K a s = Inr s'" using e True np(8) s5(1) by (simp add: s'_def)
    have nd: "nodes s' = nodes s5" by (simp add: s'_def)
    have at: "alloc_at s' = (alloc_at s)(r \<mapsto> A')"
      by (auto simp: s'_def s5(2) s4 A'_def release_def fun_eq_iff)
    have rest: "freelist s' = p # freelist s" "kmem_table s' = kmem_table s"
      "kmem_table_lock s' = kmem_table_lock s" "mem s' = mem s"
      "dom (allocators s') = dom (allocators s)"
      by (simp_all add: s'_def s5 s4)
    have A's: "a_obj_size A' = a_obj_size A" "a_next A' = a_next A" "\<not> a_lock A'"
      "a_list A' = a_list A5"
      by (simp_all add: A'_def s5 A4s)
    have ls: "nlist (nodes s') (a_list A') (xs' @ ys')" using s5(6) by (simp add: A's nd)
    have dl: "distinct (xs' @ ys')" using d4(1) by (simp add: L)
    have sx: "set (xs' @ ys') = set L4 - {p}" using d4(1) by (auto simp: L)
    have "dom (nodes s') \<inter> {p} = {}" using s5(12) by (auto simp: nd)
    moreover have "set L4 - {p} = has_space s (a_obj_size A) - {p}" by (simp add: d4(2) ps(3))
    ultimately have sl: "set (xs' @ ys') = (has_space s (a_obj_size A) - {p}) \<union> (dom (nodes s') \<inter> {p})"
      by (simp only: sx Un_empty_right)
    note fin = kfree_finish [OF inv0 n sh an a(2) reg A at A's(1,2,3) rest(2,5) _ _ _ ls dl sl]
    have o: "\<And>q. q \<noteq> p \<Longrightarrow> map_option (\<lambda>m. m\<lparr>n_next := NULL\<rparr>) (nodes s' q) =
                        map_option (\<lambda>m. m\<lparr>n_next := NULL\<rparr>) (nodes s q)"
      using s5(13) by (simp add: nd s4)
    have u: "nodes s' q = nodes s q" if "q \<noteq> p" "q \<notin> has_space s (a_obj_size A)" for q
    proof -
      have "set xs' \<subseteq> set L4" by (auto simp: L)
      with that d4(2) ps(3) have "q \<notin> set xs'" by auto
      with s5(14) that(1) show ?thesis by (simp add: nd s4)
    qed
    have h: "case nodes s' p of
                 None \<Rightarrow> objects n = {a} \<and> freelist s' = p # freelist s
               | Some n' \<Rightarrow> objects n' = objects n - {a} \<and> node_ok p n' \<and>
                   n_obj_size n' = n_obj_size n \<and> n_avail n' \<noteq> TABLE_END \<and>
                   freelist s' = freelist s"
      using np(9) [OF True] rest(1) s5(12) by (simp add: nd)
    note f = fin [OF o u h]
    have i': "slab_inv K s'" using f(1) ul rest(3) by (simp add: slab_inv_def)
    from k i' rest(4,1) f(2,3,4) o True nd s5(12) np(9) [OF True] show ?thesis
      by (intro exI [of _ s']) auto
  qed
  from result n sh i ai show ?thesis unfolding p_def [symmetric] by blast
qed

subsection \<open>The reachable states\<close>

lemma slab_inv0_freelist:
  assumes inv: "slab_inv0 K s" and fl: "distinct fl" "\<forall>p \<in> set fl. page_ok p \<and> nodes s p = None"
  shows "slab_inv0 K (s\<lparr>freelist := fl\<rparr>)"
proof -
  have A: "alloc_at s Adam = Some (kmem_adam s)" by (simp add: alloc_at_def)
  from inv have reg: "alloc_for s (unat (ROUNDUP16 K)) Adam" by (simp add: slab_inv0_def)
  note ok = inv_alloc_ok [OF inv reg A]
  have hs: "\<And>c. has_space (s\<lparr>freelist := fl\<rparr>) c = has_space s c" by (simp add: has_space_def)
  show ?thesis
  proof (rule slab_inv0_update [OF inv A _ _ refl refl])
    show "alloc_for s (unat (a_obj_size (kmem_adam s))) Adam" using reg ok(2) by simp
    show "alloc_at (s\<lparr>freelist := fl\<rparr>) = (alloc_at s)(Adam \<mapsto> kmem_adam s)"
      using A by (auto simp: fun_eq_iff)
    show "\<not> a_lock (kmem_adam s)" using ok(1) by (simp add: alloc_ok_def)
    show "finite (dom (nodes (s\<lparr>freelist := fl\<rparr>)))" using inv by (simp add: slab_inv0_def)
    show "distinct (freelist (s\<lparr>freelist := fl\<rparr>))" using fl by simp
    show "\<forall>p \<in> set (freelist (s\<lparr>freelist := fl\<rparr>)). page_ok p \<and> nodes (s\<lparr>freelist := fl\<rparr>) p = None"
      using fl by simp
    show "\<exists>ps. nlist (nodes (s\<lparr>freelist := fl\<rparr>)) (a_list (kmem_adam s)) ps \<and> distinct ps \<and>
            set ps = has_space (s\<lparr>freelist := fl\<rparr>) (a_obj_size (kmem_adam s))"
      using ok(1) by (simp add: alloc_ok_def hs)
    show "dom (allocators s) \<subseteq> live (s\<lparr>freelist := fl\<rparr>)" using inv by (simp add: slab_inv0_def)
  qed simp_all
qed

lemma table_clear: "fold (\<lambda>i t. t(i := ANull)) xs (\<lambda>i. ANull) = (\<lambda>i. ANull)"
  by (induction xs) (simp_all add: fun_eq_iff)

lemma slab_inv_boot:
  assumes K: "32 \<le> unat K" "unat K \<le> 4048" and pages: "distinct pages" "list_all page_ok pages"
  shows "slab_inv K (mem_boot K pages)" "live (mem_boot K pages) = {}"
    "allocators (mem_boot K pages) = Map.empty" "freelist (mem_boot K pages) = pages"
    "nodes (mem_boot K pages) = Map.empty"
proof -
  define s where "s = mem_boot K pages"
  define c where "c = (unat K + 15) div 16 * 16"
  note rc = roundup_class [OF K, folded c_def]
  define adam where "adam = \<lparr>a_lock = False, a_obj_size = ROUNDUP16 K, a_npages = 0, a_nobjs = 0,
                  a_list = NULL, a_next = ANull\<rparr>"
  have h: "unat (hash (ROUNDUP16 K)) = c mod 17"
    by (simp add: hash_def KMEM_TABLE_SIZE_def unat_mod rc(4))
  have s: "nodes s = Map.empty" "freelist s = pages" "kmem_adam s = adam" "allocators s = Map.empty"
    "kmem_table s = (\<lambda>i. ANull)(c mod 17 := Adam)" "\<not> kmem_table_lock s"
    by (simp_all add: s_def mem_boot_def kmallocinit_def Let_def table_clear h adam_def)
  show "live (mem_boot K pages) = {}" "allocators (mem_boot K pages) = Map.empty"
    "freelist (mem_boot K pages) = pages" "nodes (mem_boot K pages) = Map.empty"
    using s by (simp_all add: s_def [symmetric] live_def)
  have at: "alloc_at s Adam = Some adam" "\<And>x. alloc_at s (AObj x) = None" "alloc_at s ANull = None"
    by (simp_all add: alloc_at_def s)
  have hs: "\<And>z. has_space s z = {}" by (simp add: has_space_def s)
  have ok: "alloc_ok s adam" using rc(1,4) by (simp add: alloc_ok_def adam_def hs)
  have ch: "achain s Adam [Adam]" by (simp add: at adam_def)
  have bk: "bucket_ok s b" for b
  proof (cases "b = c mod 17")
    case True
    show ?thesis unfolding bucket_ok_def
      by (rule exI [of _ "[Adam]"]) (use ch ok True rc(4) in \<open>simp add: s at adam_def\<close>)
  next
    case False
    show ?thesis unfolding bucket_ok_def
      by (rule exI [of _ "[]"]) (use False in \<open>simp add: s\<close>)
  qed
  have af: "alloc_for s (unat (ROUNDUP16 K)) Adam"
    unfolding alloc_for_def rc(4)
    by (rule exI [of _ "[Adam]"], rule exI [of _ adam]) (use ch rc(4) in \<open>simp add: s at adam_def\<close>)
  have "slab_inv0 K s"
    unfolding slab_inv0_def
    using pages bk af by (simp add: s list_all_iff)
  then show "slab_inv K (mem_boot K pages)" using s(6) by (simp add: slab_inv_def s_def)
qed

lemma reach_inv:
  assumes K: "32 \<le> unat K" "unat K \<le> 4048" and r: "reach K s L"
  shows "slab_inv K s \<and> L = live s - dom (allocators s)"
  using r
proof induction
  case (boot pages)
  from slab_inv_boot [OF K boot] show ?case by simp
next
  case (malloc s L sz a s')
  then have inv: "slab_inv K s" and L: "L = live s - dom (allocators s)" by simp_all
  from kmalloc_inv [OF K inv, of sz] malloc.hyps(2) show ?case by (auto simp: L)
next
  case (free s L a s')
  then have inv: "slab_inv K s" and L: "L = live s - dom (allocators s)" by simp_all
  from free.hyps(2) L have a: "a \<in> live s" "a \<notin> dom (allocators s)" by simp_all
  from kfree_inv [OF inv a] free.hyps(3) have "slab_inv K s'" "live s' = live s - {a}"
    "same_allocs s s'" by auto
  with same_allocs_dom [OF this(3)] show ?case by (auto simp: L)
next
  case (page_taken s L p s')
  then have inv: "slab_inv0 K s" and ul: "\<not> kmem_table_lock s"
    and L: "L = live s - dom (allocators s)" by (simp_all add: slab_inv_def)
  show ?case
  proof (cases "freelist s")
    case Nil
    with page_taken.hyps(2) have "s' = s" by (simp add: allocpage_def)
    with page_taken.IH show ?thesis by simp
  next
    case (Cons q qs)
    with page_taken.hyps(2) have s': "s' = s\<lparr>freelist := qs\<rparr>" by (simp add: allocpage_def)
    from inv Cons have "distinct qs" "\<forall>p \<in> set qs. page_ok p \<and> nodes s p = None"
      by (simp_all add: slab_inv0_def)
    from slab_inv0_freelist [OF inv this] ul L show ?thesis by (simp add: s' slab_inv_def)
  qed
next
  case (page_given s L p)
  then have inv: "slab_inv0 K s" and ul: "\<not> kmem_table_lock s"
    and L: "L = live s - dom (allocators s)" by (simp_all add: slab_inv_def)
  from inv page_given.hyps(2,3,4) have "distinct (p # freelist s)"
    "\<forall>q \<in> set (p # freelist s). page_ok q \<and> nodes s q = None"
    by (simp_all add: slab_inv0_def)
  from slab_inv0_freelist [OF inv this] ul L show ?case
    by (simp add: freepage_def slab_inv_def)
next
  case (written s L m)
  then show ?case by (simp add: slab_inv_def)
qed

subsection \<open>The pointers that kmalloc returns\<close>

lemma region_in_page:
  assumes sh: "node_shape p n c xs" and pg: "page_ok p"
  shows "unat (n_obj_addr n) + length (n_table n) * unat (n_obj_size n) \<le> unat p + unat (PGSIZE :: 64 word)"
proof -
  from sh have c: "class_ok c" and len: "length (n_table n) = capa c"
    and oa: "n_obj_addr n = p + of_nat (region c)" and os: "n_obj_size n = of_nat c"
    by (auto simp: node_shape_def)
  have uc: "unat (of_nat c :: 64 word) = c" using class_lt [OF c] by (intro unat_of_nat64) simp
  from region_fits [OF c] capa_bounds [OF c] c have rg: "region c < 4096"
    by (cases "capa c") (auto simp: class_ok_def)
  from unat_page_off [OF pg rg] region_fits [OF c] show ?thesis
    by (simp add: oa os len uc PGSIZE_def)
qed

lemma sample_pages:
  "distinct [0x80010000, 0x80011000, 0x80012000 :: addr]"
  "list_all page_ok [0x80010000, 0x80011000, 0x80012000]"
  by (simp_all add: page_ok_def PGROUNDDOWN_def PGSIZE_def)

lemma sample_K: "32 \<le> unat (48 :: 32 word)" "unat (48 :: 32 word) \<le> 4048"
  by simp_all

lemma reach_one_page: "reach 48 mem_one_page {0x80011040}"
proof -
  let ?b = "mem_boot 48 [0x80010000, 0x80011000, 0x80012000]"
  from kmalloc_inv [OF sample_K slab_inv_boot(1) [OF sample_K sample_pages], of 128]
  obtain a s' where k: "kmalloc 48 128 ?b = Inr (a, s')" by blast
  have "value_of (kmalloc 48 128 ?b) = Inr 0x80011040" by code_simp
  with k have a: "a = 0x80011040" by (simp add: value_of_def)
  have m: "mem_one_page = s'" by (simp add: mem_one_page_def state_of_def k)
  from reach.malloc [OF reach.boot [OF sample_pages] k] show ?thesis by (simp add: a m)
qed

text \<open>
  C7. In every reachable state of the allocator (\<open>L\<close> is the set of the objects that
  callers hold), \<open>kmalloc\<close> of any size returns; a pointer \<open>a\<close> that it returns other
  than \<open>NULL\<close> has its low four bits clear, is no object in use (neither one that a
  caller holds nor an allocator instance), and lies in the object region of the node
  at the page \<open>PGROUNDDOWN a\<close>, which ends at or before the end of that page; no other
  node's object region contains \<open>a\<close>.
\<close>

theorem kmalloc_pointer:
  assumes "32 \<le> unat K" "unat K \<le> 4048" and "reach K s L"
  shows "\<exists>a s'. kmalloc K sz s = Inr (a, s') \<and>
     (a \<noteq> NULL \<longrightarrow>
        a AND 15 = 0 \<and> a \<notin> L \<and> a \<notin> live s \<and>
        (\<exists>n. nodes s' (PGROUNDDOWN a) = Some n \<and> in_region n a \<and>
              unat (n_obj_addr n) + length (n_table n) * unat (n_obj_size n)
                \<le> unat (PGROUNDDOWN a) + unat (PGSIZE :: 64 word) \<and>
              (\<forall>p m. nodes s' p = Some m \<longrightarrow> in_region m a \<longrightarrow> p = PGROUNDDOWN a)))"
proof -
  from reach_inv [OF assms] have inv: "slab_inv K s" and L: "L = live s - dom (allocators s)"
    by simp_all
  from kmalloc_inv [OF assms(1,2) inv, of sz] obtain a s' where
    k: "kmalloc K sz s = Inr (a, s')" and inv': "slab_inv K s'"
    and r: "a \<noteq> NULL \<Longrightarrow> a \<notin> live s \<and> a \<in> live s'"
    by (metis (full_types))
  have "a AND 15 = 0 \<and> a \<notin> L \<and> a \<notin> live s \<and>
        (\<exists>n. nodes s' (PGROUNDDOWN a) = Some n \<and> in_region n a \<and>
              unat (n_obj_addr n) + length (n_table n) * unat (n_obj_size n)
                \<le> unat (PGROUNDDOWN a) + unat (PGSIZE :: 64 word) \<and>
              (\<forall>p m. nodes s' p = Some m \<longrightarrow> in_region m a \<longrightarrow> p = PGROUNDDOWN a))"
    if nz: "a \<noteq> NULL"
  proof -
    from inv' have inv0: "slab_inv0 K s'" by (simp add: slab_inv_def)
    from r [OF nz] have nl: "a \<notin> live s" and lv: "a \<in> live s'" by simp_all
    from live_page [OF inv0 lv] obtain n where n: "nodes s' (PGROUNDDOWN a) = Some n"
      "a \<in> objects n" by blast
    from inv_node [OF inv0 n(1)] obtain c xs where pg: "page_ok (PGROUNDDOWN a)"
      and sh: "node_shape (PGROUNDDOWN a) n c xs" by (auto simp: node_ok_def)
    from objects_page [OF sh pg n(2)] have al: "a AND 15 = 0" and ir: "in_region n a" by simp_all
    have one: "p = PGROUNDDOWN a" if "nodes s' p = Some m" "in_region m a" for p m
    proof -
      from inv_node [OF inv0 that(1)] obtain c' xs' where "page_ok p" "node_shape p m c' xs'"
        by (auto simp: node_ok_def)
      from in_region_page [OF this(2,1) that(2)] show ?thesis by simp
    qed
    from al nl L n(1) ir region_in_page [OF sh pg] one show ?thesis by blast
  qed
  with k show ?thesis by blast
qed

theorem kmalloc_pointer_witness:
  "reach 48 mem_one_page {0x80011040} \<and>
   value_of (kmalloc 48 128 mem_one_page) = Inr 0x800110C0 \<and>
   (\<exists>a s'. kmalloc 48 128 mem_one_page = Inr (a, s') \<and> a = 0x800110C0 \<and>
      a AND 15 = 0 \<and> a \<notin> {0x80011040} \<and> a \<notin> live mem_one_page \<and>
      (\<exists>n. nodes s' (PGROUNDDOWN a) = Some n \<and> in_region n a \<and>
            unat (n_obj_addr n) + length (n_table n) * unat (n_obj_size n)
              \<le> unat (PGROUNDDOWN a) + unat (PGSIZE :: 64 word)))"
proof -
  have v: "value_of (kmalloc 48 128 mem_one_page) = Inr 0x800110C0" by code_simp
  from kmalloc_pointer [OF sample_K reach_one_page, of 128] obtain a s' where
    k: "kmalloc 48 128 mem_one_page = Inr (a, s')"
    and r: "a \<noteq> NULL \<longrightarrow>
        a AND 15 = 0 \<and> a \<notin> {0x80011040} \<and> a \<notin> live mem_one_page \<and>
        (\<exists>n. nodes s' (PGROUNDDOWN a) = Some n \<and> in_region n a \<and>
              unat (n_obj_addr n) + length (n_table n) * unat (n_obj_size n)
                \<le> unat (PGROUNDDOWN a) + unat (PGSIZE :: 64 word) \<and>
              (\<forall>p m. nodes s' p = Some m \<longrightarrow> in_region m a \<longrightarrow> p = PGROUNDDOWN a))"
    by blast
  from v k have a: "a = 0x800110C0" by (simp add: value_of_def)
  then have "a \<noteq> NULL" by simp
  with r k a v reach_one_page show ?thesis by blast
qed

subsection \<open>Freeing all objects of some nodes\<close>

lemma node_ok_nonempty:
  assumes "node_ok p n"
  shows "objects n \<noteq> {}"
proof -
  from assms obtain c xs where sh: "node_shape p n c xs" and l: "length xs < capa c"
    by (auto simp: node_ok_def)
  have "card (set xs) \<le> length xs" by (rule card_length)
  with l have "card (set xs) < card {0 ..< capa c}" by simp
  then have "\<not> {0 ..< capa c} \<subseteq> set xs" by (metis List.finite_set card_mono not_less)
  then obtain i where "i < capa c" "i \<notin> set xs" by (auto simp: subset_eq)
  then show ?thesis unfolding objects_shape [OF sh] by blast
qed

lemma objects_of_split:
  assumes "p \<in> P" "nodes s p = Some n"
  shows "objects_of s P = objects n \<union> objects_of s (P - {p})"
  using assms by (auto simp: objects_of_def)

lemma objects_of_missing:
  assumes "nodes s p = None"
  shows "objects_of s P = objects_of s (P - {p})"
  using assms by (auto simp: objects_of_def)

lemma objects_of_others:
  assumes "\<And>q. q \<noteq> p \<Longrightarrow> map_option (\<lambda>m. m\<lparr>n_next := NULL\<rparr>) (nodes s' q) =
                        map_option (\<lambda>m. m\<lparr>n_next := NULL\<rparr>) (nodes s q)"
    and "p \<notin> P"
  shows "objects_of s' P = objects_of s P"
proof -
  have 1: "\<exists>m0. nodes s q = Some m0 \<and> objects m = objects m0"
    if "q \<noteq> p" "nodes s' q = Some m" for q m
  proof -
    from assms(1) [OF that(1)] that(2) obtain m0 where "nodes s q = Some m0"
      "m\<lparr>n_next := NULL\<rparr> = m0\<lparr>n_next := NULL\<rparr>" by (cases "nodes s q") auto
    with node_next_eq(6) [OF this(2)] show ?thesis by simp
  qed
  have 2: "\<exists>m. nodes s' q = Some m \<and> objects m = objects m0"
    if "q \<noteq> p" "nodes s q = Some m0" for q m0
  proof -
    from assms(1) [OF that(1)] that(2) obtain m where "nodes s' q = Some m"
      "m\<lparr>n_next := NULL\<rparr> = m0\<lparr>n_next := NULL\<rparr>" by (cases "nodes s' q") auto
    with node_next_eq(6) [OF this(2)] show ?thesis by simp
  qed
  show ?thesis
  proof (intro set_eqI iffI)
    fix x assume "x \<in> objects_of s' P"
    then obtain q m where q: "q \<in> P" "nodes s' q = Some m" "x \<in> objects m"
      by (auto simp: objects_of_def)
    with assms(2) have "q \<noteq> p" by auto
    from 1 [OF this q(2)] q show "x \<in> objects_of s P" by (auto simp: objects_of_def)
  next
    fix x assume "x \<in> objects_of s P"
    then obtain q m where q: "q \<in> P" "nodes s q = Some m" "x \<in> objects m"
      by (auto simp: objects_of_def)
    with assms(2) have "q \<noteq> p" by auto
    from 2 [OF this q(2)] q show "x \<in> objects_of s' P" by (auto simp: objects_of_def)
  qed
qed

lemma objects_of_page:
  assumes inv: "slab_inv0 K s" and "a \<in> objects_of s P"
  shows "PGROUNDDOWN a \<in> P"
proof -
  from assms(2) obtain p n where p: "p \<in> P" "nodes s p = Some n" "a \<in> objects n"
    by (auto simp: objects_of_def)
  from inv_node [OF inv p(2)] obtain c xs where "page_ok p" "node_shape p n c xs"
    by (auto simp: node_ok_def)
  from objects_page [OF this(2,1) p(3)] p(1) show ?thesis by simp
qed

lemma kfree_list_pages:
  assumes K: "32 \<le> unat K" "unat K \<le> 4048"
  shows "reach K s L \<Longrightarrow> P \<subseteq> dom (nodes s) \<Longrightarrow> distinct as \<Longrightarrow>
         set as = objects_of s P \<Longrightarrow> set as \<subseteq> L \<Longrightarrow>
         \<exists>s'. kfree_list K as s = Inr s' \<and>
              length (freelist s') = length (freelist s) + card P \<and>
              set (freelist s') = set (freelist s) \<union> P \<and>
              dom (nodes s') = dom (nodes s) - P \<and> reach K s' (L - set as)"
proof (induction as arbitrary: s L P)
  case Nil
  from reach_inv [OF K Nil.prems(1)] have inv: "slab_inv0 K s" by (simp add: slab_inv_def)
  have "P = {}"
  proof (rule ccontr)
    assume "P \<noteq> {}"
    then obtain p where p: "p \<in> P" by auto
    with Nil.prems(2) obtain n where n: "nodes s p = Some n" by auto
    from inv_node [OF inv n] have "objects n \<noteq> {}" by (auto dest: node_ok_nonempty)
    with p n have "objects_of s P \<noteq> {}" by (auto simp: objects_of_def)
    with Nil.prems(4) show False by simp
  qed
  with Nil.prems(1) show ?case by simp
next
  case (Cons a as)
  from reach_inv [OF K Cons.prems(1)] have inv: "slab_inv K s"
    and L: "L = live s - dom (allocators s)" by simp_all
  from inv have inv0: "slab_inv0 K s" by (simp add: slab_inv_def)
  from inv0 have fin: "finite (dom (nodes s))" by (simp add: slab_inv0_def)
  from Cons.prems(2) fin have finP: "finite P" by (rule finite_subset)
  define p where "p = PGROUNDDOWN a"
  from Cons.prems(4) have ao: "a \<in> objects_of s P" by auto
  from objects_of_page [OF inv0 ao] have pP: "p \<in> P" by (simp add: p_def)
  from Cons.prems(5) L have al: "a \<in> live s" "a \<notin> dom (allocators s)" "a \<in> L" by auto
  from kfree_inv [OF inv al(1,2)] obtain n c xs i s1 where
    big: "nodes s (PGROUNDDOWN a) = Some n \<and> node_shape (PGROUNDDOWN a) n c xs \<and>
     i < capa c \<and> i \<notin> set xs \<and> a = PGROUNDDOWN a + of_nat (region c + i * c) \<and>
     kfree K a s = Inr s1 \<and> slab_inv K s1 \<and> mem s1 = mem s \<and> page_total s1 = page_total s \<and>
     live s1 = live s - {a} \<and> same_allocs s s1 \<and>
     (\<forall>q. q \<noteq> PGROUNDDOWN a \<longrightarrow> map_option (\<lambda>m. m\<lparr>n_next := NULL\<rparr>) (nodes s1 q) =
                        map_option (\<lambda>m. m\<lparr>n_next := NULL\<rparr>) (nodes s q)) \<and>
     (if unat (n_cnt n) = 1
      then nodes s1 (PGROUNDDOWN a) = None \<and> freelist s1 = PGROUNDDOWN a # freelist s \<and>
           objects n = {a}
      else freelist s1 = freelist s \<and>
           (\<exists>n'. nodes s1 (PGROUNDDOWN a) = Some n' \<and> node_shape (PGROUNDDOWN a) n' c (i # xs) \<and>
                 objects n' = objects n - {a})) \<and>
     (n_avail n \<noteq> TABLE_END \<longrightarrow> unat (n_cnt n) \<noteq> 1 \<longrightarrow>
        (\<forall>r A. alloc_at s r = Some A \<longrightarrow> (\<exists>A'. alloc_at s1 r = Some A' \<and> a_list A' = a_list A)))"
    by (elim exE) 
  from big have n: "nodes s p = Some n" and k: "kfree K a s = Inr s1"
    and others: "\<forall>q. q \<noteq> p \<longrightarrow> map_option (\<lambda>m. m\<lparr>n_next := NULL\<rparr>) (nodes s1 q) =
                        map_option (\<lambda>m. m\<lparr>n_next := NULL\<rparr>) (nodes s q)"
    unfolding p_def by blast+
  from big have cs: "if unat (n_cnt n) = 1
      then nodes s1 p = None \<and> freelist s1 = p # freelist s \<and> objects n = {a}
      else freelist s1 = freelist s \<and> (\<exists>n'. nodes s1 p = Some n' \<and> objects n' = objects n - {a})"
    unfolding p_def by (cases "unat (n_cnt n) = 1") (simp only: if_True, simp, simp only: if_False, blast)
  have r1: "reach K s1 (L - {a})" by (rule reach.free [OF Cons.prems(1) al(3) k])
  have oth: "\<And>q. q \<noteq> p \<Longrightarrow> map_option (\<lambda>m. m\<lparr>n_next := NULL\<rparr>) (nodes s1 q) =
                        map_option (\<lambda>m. m\<lparr>n_next := NULL\<rparr>) (nodes s q)"
    using others by simp
  have dq: "q \<in> dom (nodes s1) \<longleftrightarrow> q \<in> dom (nodes s)" if "q \<noteq> p" for q
  proof -
    have "nodes s1 q = None \<longleftrightarrow> nodes s q = None"
      by (metis oth [OF that] option.map_disc_iff)
    then show ?thesis by (simp add: domIff)
  qed
  define Orest where "Orest = objects_of s (P - {p})"
  have "p \<notin> P - {p}" by simp
  from objects_of_others [of p s1 s, OF oth this]
  have Orest1: "objects_of s1 (P - {p}) = Orest" unfolding Orest_def .
  have sp: "objects_of s P = objects n \<union> Orest" unfolding Orest_def by (rule objects_of_split [OF pP n])
  have aO: "a \<notin> Orest"
  proof
    assume "a \<in> Orest"
    from objects_of_page [OF inv0 this [unfolded Orest_def]] show False by (simp add: p_def)
  qed
  from Cons.prems(3) have d: "a \<notin> set as" "distinct as" by simp_all
  from Cons.prems(4) d(1) have as: "set as = (objects n \<union> Orest) - {a}" by (auto simp: sp)
  from Cons.prems(5) d(1) have sub: "set as \<subseteq> L - {a}" by auto
  have e: "kfree_list K (a # as) s = kfree_list K as s1" by (simp add: k)
  have Ls: "L - {a} - set as = L - set (a # as)" by auto
  show ?case
  proof (cases "unat (n_cnt n) = 1")
    case True
    with cs have c: "nodes s1 p = None" "freelist s1 = p # freelist s" "objects n = {a}"
      by simp_all
    have P1: "P - {p} \<subseteq> dom (nodes s1)"
    proof
      fix q assume "q \<in> P - {p}"
      with Cons.prems(2) dq [of q] show "q \<in> dom (nodes s1)" by auto
    qed
    have s1: "set as = objects_of s1 (P - {p})" using as c(3) aO by (auto simp: Orest1)
    from Cons.IH [OF r1 P1 d(2) s1 sub] obtain s' where
      s': "kfree_list K as s1 = Inr s'"
      "length (freelist s') = length (freelist s1) + card (P - {p})"
      "set (freelist s') = set (freelist s1) \<union> (P - {p})"
      "dom (nodes s') = dom (nodes s1) - (P - {p})" "reach K s' (L - {a} - set as)"
      by blast
    have cd: "card P = Suc (card (P - {p}))" using finP pP by (metis card_Suc_Diff1)
    have d1: "dom (nodes s1) = dom (nodes s) - {p}"
    proof (intro set_eqI)
      fix q show "q \<in> dom (nodes s1) \<longleftrightarrow> q \<in> dom (nodes s) - {p}"
        using dq [of q] c(1) by (cases "q = p") auto
    qed
    have "length (freelist s') = length (freelist s) + card P" using s'(2) c(2) cd by simp
    moreover have "set (freelist s') = set (freelist s) \<union> P" using s'(3) c(2) pP by auto
    moreover have "dom (nodes s') = dom (nodes s) - P" using s'(4) d1 pP by auto
    ultimately show ?thesis using s'(1,5) e by (simp only: Ls) simp
  next
    case False
    with cs obtain n' where c: "freelist s1 = freelist s" "nodes s1 p = Some n'"
      "objects n' = objects n - {a}" by auto
    have d1: "dom (nodes s1) = dom (nodes s)"
    proof (intro set_eqI)
      fix q show "q \<in> dom (nodes s1) \<longleftrightarrow> q \<in> dom (nodes s)"
        using dq [of q] c(2) n by (cases "q = p") auto
    qed
    have P1: "P \<subseteq> dom (nodes s1)" using Cons.prems(2) by (simp add: d1)
    have "objects_of s1 P = objects n' \<union> objects_of s1 (P - {p})"
      by (rule objects_of_split [OF pP c(2)])
    then have s1: "set as = objects_of s1 P" using as c(3) aO by (auto simp: Orest1)
    from Cons.IH [OF r1 P1 d(2) s1 sub] obtain s' where
      s': "kfree_list K as s1 = Inr s'"
      "length (freelist s') = length (freelist s1) + card P"
      "set (freelist s') = set (freelist s1) \<union> P"
      "dom (nodes s') = dom (nodes s1) - P" "reach K s' (L - {a} - set as)"
      by blast
    then show ?thesis using e c(1) d1 by (simp only: Ls) simp
  qed
qed

lemma sample_pages2:
  "distinct [0x80010000, 0x80011000 :: addr]" "list_all page_ok [0x80010000, 0x80011000]"
  by (simp_all add: page_ok_def PGROUNDDOWN_def PGSIZE_def)

lemma reach_full_node: "reach 48 mem_full_node {0x80011020}"
proof -
  let ?b = "mem_boot 48 [0x80010000, 0x80011000]"
  from kmalloc_inv [OF sample_K slab_inv_boot(1) [OF sample_K sample_pages2], of 4048]
  obtain a s' where k: "kmalloc 48 4048 ?b = Inr (a, s')" by blast
  have "value_of (kmalloc 48 4048 ?b) = Inr 0x80011020" by code_simp
  with k have a: "a = 0x80011020" by (simp add: value_of_def)
  have m: "mem_full_node = s'" by (simp add: mem_full_node_def state_of_def k)
  from reach.malloc [OF reach.boot [OF sample_pages2] k] show ?thesis by (simp add: a m)
qed

lemma full_node_objects: "objects_of mem_full_node {0x80011000} = {0x80011020}"
proof -
  have n: "nodes mem_full_node 0x80011000 =
      Some \<lparr>n_next = NULL, n_obj_size = 4048, n_obj_addr = 0x80011020, n_avail = TABLE_END,
            n_cnt = 1, n_table = [TABLE_END]\<rparr>"
    by code_simp
  have "chain [TABLE_END] TABLE_END xs \<longleftrightarrow> xs = []" for xs by (cases xs) simp_all
  then have "free_slots \<lparr>n_next = NULL, n_obj_size = 4048, n_obj_addr = 0x80011020,
      n_avail = TABLE_END, n_cnt = 1, n_table = [TABLE_END]\<rparr> = {}"
    by (simp add: free_slots_def)
  then show ?thesis by (simp add: objects_of_def n objects_def)
qed

text \<open>
  C8. In a reachable state, take the nodes at a set \<open>P\<close> of pages (in particular \<open>N\<close>
  full nodes of one size class) whose objects in use are all held by callers, and
  free each of these objects once, in any order. Every \<open>kfree\<close> returns without error,
  so the panic never fires; afterwards just the pages of \<open>P\<close> have joined the free
  pages, whose number has grown by the number of the nodes, and these nodes are gone.
\<close>

theorem kfree_returns_pages:
  assumes "32 \<le> unat K" "unat K \<le> 4048" and "reach K s L"
    and "P \<subseteq> dom (nodes s)" and "distinct as" and "set as = objects_of s P"
    and "set as \<subseteq> L"
  shows "\<exists>s'. kfree_list K as s = Inr s' \<and>
              length (freelist s') = length (freelist s) + card P \<and>
              set (freelist s') = set (freelist s) \<union> P \<and>
              dom (nodes s') = dom (nodes s) - P \<and> reach K s' (L - set as)"
  using assms by (rule kfree_list_pages)

theorem kfree_returns_pages_witness:
  "reach 48 mem_full_node {0x80011020} \<and>
   objects_of mem_full_node {0x80011000} = {0x80011020} \<and>
   freelist mem_full_node = [] \<and>
   (\<exists>s'. kfree_list 48 [0x80011020] mem_full_node = Inr s' \<and>
         length (freelist s') = 1 \<and> set (freelist s') = {0x80011000} \<and>
         0x80011000 \<notin> dom (nodes s'))"
proof -
  have f: "freelist mem_full_node = []" by code_simp
  have "nodes mem_full_node 0x80011000 \<noteq> None" by code_simp
  then have P: "{0x80011000} \<subseteq> dom (nodes mem_full_node)" by auto
  from kfree_returns_pages [OF sample_K reach_full_node P, of "[0x80011020]"] full_node_objects
  obtain s' where "kfree_list 48 [0x80011020] mem_full_node = Inr s'"
    "length (freelist s') = length (freelist mem_full_node) + card {0x80011000 :: addr}"
    "set (freelist s') = set (freelist mem_full_node) \<union> {0x80011000}"
    "dom (nodes s') = dom (nodes mem_full_node) - {0x80011000}"
    by auto
  with f reach_full_node full_node_objects show ?thesis by auto
qed

theorem kfree_page_count_counterexample:
  "length (freelist (mem_boot 48 [0x80010000, 0x80011000])) = 2 \<and>
   value_of (kmalloc 48 4048 (mem_boot 48 [0x80010000, 0x80011000])) = Inr 0x80011020 \<and>
   map_option n_obj_size (nodes mem_full_node 0x80011000) = Some 4048 \<and>
   map_option n_table (nodes mem_full_node 0x80011000) = Some [TABLE_END] \<and>
   map_option n_avail (nodes mem_full_node 0x80011000) = Some TABLE_END \<and>
   map_option n_cnt (nodes mem_full_node 0x80011000) = Some 1 \<and>
   map_sum id freelist (kfree 48 0x80011020 mem_full_node) = Inr [0x80011000]"
  by code_simp

subsection \<open>Two objects of one node, and the reuse of a freed slot\<close>

lemma shape_unique:
  assumes "node_shape p n c xs" "node_shape p n c' ys"
  shows "c = c'" "xs = ys"
proof -
  from assms have c: "class_ok c" "class_ok c'" and e: "n_obj_size n = of_nat c" "n_obj_size n = of_nat c'"
    and ch: "chain (n_table n) (n_avail n) xs" "chain (n_table n) (n_avail n) ys"
    by (simp_all add: node_shape_def)
  have "unat (of_nat c :: 64 word) = c" "unat (of_nat c' :: 64 word) = c'"
    using class_lt [OF c(1)] class_lt [OF c(2)] by (simp_all add: unat_of_nat64)
  with e show "c = c'" by metis
  from ch show "xs = ys" by (rule chain_unique)
qed

lemma kmalloc_via:
  assumes "32 \<le> unat sz" "unat sz \<le> 4048" "get_allocator K (ucast sz) s = Inr (r, s1)"
  shows "kmalloc K sz s = (if ANull = r then Inr (NULL, s1) else kmalloc_from r sz s1)"
  using assms
  by (simp add: kmalloc.simps [of K sz] KMEM_OBJ_MIN_SIZE_def KMEM_OBJ_MAX_SIZE_def
      word_less_nat_alt unat_ucast_32_64)

lemma kmalloc_first_of_class:
  assumes K: "32 \<le> unat K" "unat K \<le> 4048" and inv: "slab_inv K s"
    and sz: "32 \<le> unat sz" "unat sz \<le> 4048" and c: "c = (unat sz + 15) div 16 * 16"
    and no: "\<forall>p n. nodes s p = Some n \<longrightarrow> n_obj_size n \<noteq> of_nat c"
    and k: "kmalloc K sz s = Inr (a, s')" and nz: "a \<noteq> NULL"
  shows "\<exists>q n r A. page_ok q \<and> a = q + of_nat (region c) \<and> slab_inv K s' \<and>
           nodes s' q = Some n \<and> node_shape q n c [1 ..< capa c] \<and>
           alloc_for s' c r \<and> alloc_at s' r = Some A \<and>
           a_list A = (if [1 ..< capa c] = [] then NULL else q) \<and>
           a \<in> live s' \<and> a \<notin> dom (allocators s')"
proof -
  note rc = roundup_class [OF sz, folded c]
  from get_allocator_inv [OF K inv rc(1,3)] obtain r sg where
    g: "get_allocator K (ucast sz) s = Inr (r, sg)" and ig: "slab_inv K sg"
    and rg: "if r = ANull then sg = s else alloc_for sg c r"
    and ng: "\<forall>p n. nodes sg p = Some n \<longrightarrow> n_obj_size n = of_nat c \<longrightarrow> nodes s p = Some n"
    by blast
  from kmalloc_via [OF sz g] k nz have r0: "r \<noteq> ANull" and kf: "kmalloc_from r sz sg = Inr (a, s')"
    by (auto split: if_splits)
  with rg have reg: "alloc_for sg c r" by simp
  from ig have i0: "slab_inv0 K sg" and ul: "\<not> kmem_table_lock sg" by (simp_all add: slab_inv_def)
  from reg obtain A where A: "alloc_at sg r = Some A" by (auto simp: alloc_for_def)
  note ok = inv_alloc_ok [OF i0 reg A]
  have csz: "(ucast (a_obj_size A) :: 64 word) = of_nat c" using ok(2) by (simp add: ucast_class)
  have hs: "has_space sg (a_obj_size A) = {}"
    using ng no by (auto simp: has_space_def csz)
  with ok(1) have emp: "a_list A = NULL" by (auto simp: alloc_ok_def)
  from i0 have sub: "dom (allocators sg) \<subseteq> live sg" by (simp add: slab_inv0_def)
  show ?thesis
  proof (cases "freelist sg")
    case Nil
    from kmalloc_from_nopage [OF i0 reg A emp Nil, of sz] kf nz show ?thesis by simp
  next
    case (Cons q qs)
    from kmalloc_from_fresh [OF i0 reg A emp Cons rc(2)] obtain n' s1 A' where
      *: "node_shape q n' c [1 ..< capa c]"
      "kmalloc_from r sz sg = Inr (q + of_nat (region c), s1)"
      "slab_inv0 K s1"
      "nodes s1 = (nodes sg)(q \<mapsto> n')" "page_ok q"
      "kmem_table s1 = kmem_table sg"
      "kmem_table_lock s1 = kmem_table_lock sg" "dom (allocators s1) = dom (allocators sg)"
      "q + of_nat (region c) \<notin> live sg"
      "live s1 = insert (q + of_nat (region c)) (live sg)"
      "alloc_at s1 = (alloc_at sg)(r \<mapsto> A')" "a_obj_size A' = a_obj_size A" "a_next A' = a_next A"
      "a_list A' = (if [1 ..< capa c] = [] then NULL else q)"
      by blast
    from kf *(2) have e: "a = q + of_nat (region c)" "s' = s1" by simp_all
    have sa: "same_allocs sg s1" by (rule same_allocs_upd [OF A *(11,12,13,6)])
    have reg1: "alloc_for s1 c r" using reg by (simp add: same_allocs_for [OF sa])
    have i1: "slab_inv K s1" using *(3,7) ul by (simp add: slab_inv_def)
    have "a \<notin> dom (allocators s1)" using sub *(8,9) e(1) by auto
    with *(1,4,5,10,11,14) reg1 i1 e show ?thesis
      by (intro exI [of _ q] exI [of _ n'] exI [of _ r] exI [of _ A']) simp
  qed
qed

lemma kmalloc_from_head:
  assumes inv: "slab_inv K s" and sz: "32 \<le> unat sz" "unat sz \<le> 4048"
    and c: "c = (unat sz + 15) div 16 * 16"
    and reg: "alloc_for s c r" and A: "alloc_at s r = Some A" and q: "a_list A = q" "q \<noteq> NULL"
    and n: "nodes s q = Some n" and sh: "node_shape q n c (x # xs)"
  shows "\<exists>s' n' A'. kmalloc K sz s = Inr (q + of_nat (region c + x * c), s') \<and> slab_inv K s' \<and>
           nodes s' q = Some n' \<and> node_shape q n' c xs \<and>
           alloc_for s' c r \<and> alloc_at s' r = Some A' \<and>
           a_list A' = (if xs = [] then n_next n else q) \<and>
           live s' = insert (q + of_nat (region c + x * c)) (live s) \<and>
           dom (allocators s') = dom (allocators s) \<and>
           q + of_nat (region c + x * c) \<notin> live s"
proof -
  from inv have i0: "slab_inv0 K s" and ul: "\<not> kmem_table_lock s" by (simp_all add: slab_inv_def)
  have km: "kmalloc K sz s = kmalloc_from r sz s"
    by (rule kmalloc_found [OF i0 sz reg [unfolded c]])
  from q have ne: "a_list A \<noteq> NULL" by simp
  from kmalloc_from_take [OF i0 reg A ne, of sz] obtain m y ys s' A' where
    *: "nodes s (a_list A) = Some m" "node_shape (a_list A) m c (y # ys)"
    "kmalloc_from r sz s = Inr (a_list A + of_nat (region c + y * c), s')"
    "slab_inv0 K s'"
    "nodes s' = (nodes s)(a_list A \<mapsto> m\<lparr>n_cnt := n_cnt m + 1, n_avail := n_table m ! y\<rparr>)"
    "kmem_table s' = kmem_table s"
    "kmem_table_lock s' = kmem_table_lock s" "dom (allocators s') = dom (allocators s)"
    "a_list A + of_nat (region c + y * c) \<notin> live s"
    "live s' = insert (a_list A + of_nat (region c + y * c)) (live s)"
    "alloc_at s' = (alloc_at s)(r \<mapsto> A')" "a_obj_size A' = a_obj_size A" "a_next A' = a_next A"
    "a_list A' = (if ys = [] then n_next m else a_list A)"
    by blast
  from *(1) n q have m: "m = n" by simp
  from shape_unique(2) [OF sh *(2) [unfolded m q(1)]] have xy: "y = x" "ys = xs" by simp_all
  from inv_node [OF i0 n] have pg: "page_ok q" by simp
  from sh have yx: "x = unat (n_avail n)" by (simp add: node_shape_def)
  have sh': "node_shape q (n\<lparr>n_cnt := n_cnt n + 1, n_avail := n_table n ! x\<rparr>) c xs"
    using node_take(3) [OF sh pg] by (simp add: yx)
  have sa: "same_allocs s s'" by (rule same_allocs_upd [OF A *(11,12,13,6)])
  have reg': "alloc_for s' c r" using reg by (simp add: same_allocs_for [OF sa])
  have i': "slab_inv K s'" using *(4,7) ul by (simp add: slab_inv_def)
  from km *(3,5,8,9,10,11,14) sh' reg' i' show ?thesis
    unfolding m xy q(1)
    by (intro exI [of _ s'] exI [of _ "n\<lparr>n_cnt := n_cnt n + 1, n_avail := n_table n ! x\<rparr>"]
        exI [of _ A']) simp
qed

lemma kfree_slot:
  assumes inv: "slab_inv K s" and n: "nodes s q = Some n" and sh: "node_shape q n c xs"
    and i: "i < capa c" "i \<notin> set xs" and xs: "xs \<noteq> []" and cnt: "unat (n_cnt n) \<noteq> 1"
    and a: "a = q + of_nat (region c + i * c)" "a \<notin> dom (allocators s)"
    and A: "alloc_at s r = Some A"
  shows "\<exists>s' n' A'. kfree K a s = Inr s' \<and> slab_inv K s' \<and> nodes s' q = Some n' \<and>
           node_shape q n' c (i # xs) \<and> alloc_at s' r = Some A' \<and> a_list A' = a_list A \<and>
           same_allocs s s'"
proof -
  from inv have i0: "slab_inv0 K s" by (simp add: slab_inv_def)
  from inv_node [OF i0 n] have pg: "page_ok q" by simp
  from sh have cl: "class_ok c" by (simp add: node_shape_def)
  have ao: "a \<in> objects n" unfolding objects_shape [OF sh] a(1) using i by blast
  then have al: "a \<in> live s" using n by (auto simp: live_def)
  from object_facts(1) [OF sh pg i(1)] have pa: "PGROUNDDOWN a = q" by (simp add: a(1))
  from kfree_inv [OF inv al a(2)] obtain m c' ys j s1 where
    big: "nodes s (PGROUNDDOWN a) = Some m \<and> node_shape (PGROUNDDOWN a) m c' ys \<and>
     j < capa c' \<and> j \<notin> set ys \<and> a = PGROUNDDOWN a + of_nat (region c' + j * c') \<and>
     kfree K a s = Inr s1 \<and> slab_inv K s1 \<and> mem s1 = mem s \<and> page_total s1 = page_total s \<and>
     live s1 = live s - {a} \<and> same_allocs s s1 \<and>
     (\<forall>q. q \<noteq> PGROUNDDOWN a \<longrightarrow> map_option (\<lambda>m. m\<lparr>n_next := NULL\<rparr>) (nodes s1 q) =
                        map_option (\<lambda>m. m\<lparr>n_next := NULL\<rparr>) (nodes s q)) \<and>
     (if unat (n_cnt m) = 1
      then nodes s1 (PGROUNDDOWN a) = None \<and> freelist s1 = PGROUNDDOWN a # freelist s \<and>
           objects m = {a}
      else freelist s1 = freelist s \<and>
           (\<exists>n'. nodes s1 (PGROUNDDOWN a) = Some n' \<and> node_shape (PGROUNDDOWN a) n' c' (j # ys) \<and>
                 objects n' = objects m - {a})) \<and>
     (n_avail m \<noteq> TABLE_END \<longrightarrow> unat (n_cnt m) \<noteq> 1 \<longrightarrow>
        (\<forall>r A. alloc_at s r = Some A \<longrightarrow> (\<exists>A'. alloc_at s1 r = Some A' \<and> a_list A' = a_list A)))"
    by (elim exE)
  from big n have m: "m = n" by (simp add: pa)
  from big have shm: "node_shape q n c' ys" and j: "j < capa c'"
    and aj: "a = q + of_nat (region c' + j * c')"
    and k: "kfree K a s = Inr s1" and i1: "slab_inv K s1" and sa: "same_allocs s s1"
    unfolding m pa by blast+
  from shape_unique [OF sh shm] have e: "c' = c" "ys = xs" by simp_all
  from obj_addr_inj [OF cl pg i(1) j [unfolded e]] a(1) aj have ij: "j = i" by (simp add: e)
  from sh xs have av: "n_avail n \<noteq> TABLE_END" by (cases xs) (simp_all add: node_shape_def)
  from big cnt obtain n' where n': "nodes s1 q = Some n'" "node_shape q n' c (i # xs)"
    unfolding m pa e ij by auto
  from big av cnt A obtain A' where "alloc_at s1 r = Some A'" "a_list A' = a_list A"
    unfolding m by blast
  with k i1 sa n' show ?thesis by blast
qed

text \<open>
  C5. In a reachable state with no node for 32-byte objects, let \<open>kmalloc(32)\<close> return
  an object \<open>a1\<close> (not \<open>NULL\<close>: a page was there for the node). Then a second
  \<open>kmalloc(32)\<close> returns an object \<open>a2\<close> other than \<open>a1\<close> in the same page, \<open>kfree(a1)\<close>
  returns, and the next \<open>kmalloc(32)\<close> returns \<open>a1\<close> again.
\<close>

theorem kmalloc_reuse:
  assumes "32 \<le> unat K" "unat K \<le> 4048" and "reach K s L"
    and "\<forall>p n. nodes s p = Some n \<longrightarrow> n_obj_size n \<noteq> 32"
    and "kmalloc K 32 s = Inr (a1, s1)" and "a1 \<noteq> NULL"
  shows "\<exists>a2 s2 s3 s4. kmalloc K 32 s1 = Inr (a2, s2) \<and> a2 \<noteq> NULL \<and> a2 \<noteq> a1 \<and>
           PGROUNDDOWN a2 = PGROUNDDOWN a1 \<and>
           kfree K a1 s2 = Inr s3 \<and> kmalloc K 32 s3 = Inr (a1, s4)"
proof -
  define c where "c = (32 :: nat)"
  have sz: "32 \<le> unat (32 :: 32 word)" "unat (32 :: 32 word) \<le> 4048" by simp_all
  have ce: "c = (unat (32 :: 32 word) + 15) div 16 * 16" by (simp add: c_def)
  have cls: "class_ok c" by (simp add: c_def class_ok_def)
  have cap: "capa c = 123" by (simp add: capa_def c_def)
  from reach_inv [OF assms(1,2,3)] have inv: "slab_inv K s" by simp
  have no: "\<forall>p n. nodes s p = Some n \<longrightarrow> n_obj_size n \<noteq> of_nat c"
    using assms(4) by (simp add: c_def)
  from kmalloc_first_of_class [OF assms(1,2) inv sz ce no assms(5,6)] obtain q n r A where
    1: "page_ok q" "a1 = q + of_nat (region c)" "slab_inv K s1"
    "nodes s1 q = Some n" "node_shape q n c [1 ..< capa c]"
    "alloc_for s1 c r" "alloc_at s1 r = Some A"
    "a_list A = (if [1 ..< capa c] = [] then NULL else q)"
    "a1 \<in> live s1" "a1 \<notin> dom (allocators s1)"
    by blast
  have u1: "[1 ..< capa c] = 1 # [2 ..< capa c]" by (simp add: cap upt_conv_Cons)
  have u2: "[2 ..< capa c] \<noteq> []" by (simp add: cap)
  from 1(1) have q0: "q \<noteq> NULL" by (simp add: page_ok_def)
  have "[1 ..< capa c] \<noteq> []" by (simp add: cap)
  with 1(8) have l1: "a_list A = q" by (simp only: if_False)
  define a2 where "a2 = q + of_nat (region c + 1 * c)"
  have a1: "a1 = q + of_nat (region c + 0 * c)" using 1(2) by simp
  from kmalloc_from_head [OF 1(3) sz ce 1(6,7) l1 q0 1(4) 1(5) [unfolded u1], folded a2_def]
  obtain s2 n2 A2 where
    2: "kmalloc K 32 s1 = Inr (a2, s2)" "slab_inv K s2" "nodes s2 q = Some n2"
    "node_shape q n2 c [2 ..< capa c]" "alloc_for s2 c r" "alloc_at s2 r = Some A2"
    "a_list A2 = (if [2 ..< capa c] = [] then n_next n else q)"
    "live s2 = insert a2 (live s1)" "dom (allocators s2) = dom (allocators s1)"
    "a2 \<notin> live s1"
    by blast
  from 2(7) u2 have l2: "a_list A2 = q" by (simp only: if_False)
  have i1: "1 < capa c" "0 < capa c" by (simp_all add: cap)
  note f1 = object_facts(1,2) [OF 1(5) 1(1) i1(1), folded a2_def]
  note f0 = object_facts(1) [OF 1(5) 1(1) i1(2), folded a1]
  from 1(9) 2(10) have ne: "a2 \<noteq> a1" by auto
  have cnt: "unat (n_cnt n2) \<noteq> 1" using 2(4) by (simp add: node_shape_def cap)
  have "0 \<notin> set [2 ..< capa c]" by simp
  from kfree_slot [OF 2(2,3,4) i1(2) this u2 cnt a1 _ 2(6)] 1(10) 2(9)
  obtain s3 n3 A3 where
    3: "kfree K a1 s2 = Inr s3" "slab_inv K s3" "nodes s3 q = Some n3"
    "node_shape q n3 c (0 # [2 ..< capa c])" "alloc_at s3 r = Some A3" "a_list A3 = a_list A2"
    "same_allocs s2 s3"
    by auto
  have reg3: "alloc_for s3 c r" using 2(5) by (simp add: same_allocs_for [OF 3(7)])
  have l3: "a_list A3 = q" using 3(6) l2 by simp
  from kmalloc_from_head [OF 3(2) sz ce reg3 3(5) l3 q0 3(3,4), folded a1]
  obtain s4 where 4: "kmalloc K 32 s3 = Inr (a1, s4)" by blast
  from 2(1) f1 f0 ne 3(1) 4 show ?thesis by auto
qed

theorem kmalloc_reuse_witness:
  "reach 48 (mem_boot 48 [0x80010000, 0x80011000, 0x80012000]) {} \<and>
   value_of (kmalloc 48 32 (mem_boot 48 [0x80010000, 0x80011000, 0x80012000])) = Inr 0x800110A0 \<and>
   (\<exists>s1 a2 s2 s3 s4.
      kmalloc 48 32 (mem_boot 48 [0x80010000, 0x80011000, 0x80012000]) = Inr (0x800110A0, s1) \<and>
      kmalloc 48 32 s1 = Inr (a2, s2) \<and> a2 \<noteq> NULL \<and> a2 \<noteq> 0x800110A0 \<and>
      PGROUNDDOWN a2 = PGROUNDDOWN 0x800110A0 \<and>
      kfree 48 0x800110A0 s2 = Inr s3 \<and> kmalloc 48 32 s3 = Inr (0x800110A0, s4))"
proof -
  let ?b = "mem_boot 48 [0x80010000, 0x80011000, 0x80012000]"
  have r: "reach 48 ?b {}" by (rule reach.boot [OF sample_pages])
  from kmalloc_inv [OF sample_K slab_inv_boot(1) [OF sample_K sample_pages], of 32]
  obtain a s1 where k: "kmalloc 48 32 ?b = Inr (a, s1)" by blast
  have v: "value_of (kmalloc 48 32 ?b) = Inr 0x800110A0" by code_simp
  with k have a: "a = 0x800110A0" by (simp add: value_of_def)
  have no: "\<forall>p n. nodes ?b p = Some n \<longrightarrow> n_obj_size n \<noteq> 32"
    by (simp add: slab_inv_boot(5) [OF sample_K sample_pages])
  have nz: "(0x800110A0 :: addr) \<noteq> NULL" by simp
  from kmalloc_reuse [OF sample_K r no k [unfolded a] nz] r v k [unfolded a] show ?thesis by blast
qed

end
